theory Spec2Isabelle
  imports Main "HOL-Library.AList" "HOL-Library.Char_ord" "HOL-Library.List_Lexorder"
begin

section \<open>Strings and characters of the JavaScript run time\<close>

text \<open>
  A JavaScript string is a sequence of UTF-16 code units. The scanner is modelled on
  documents over the Latin-1 repertoire: there a \<^typ>\<open>char\<close> is one code unit with a value
  below 256, and \<open>code_unit\<close> reads that value. What the program prints and what the
  reporter sorts are sequences of arbitrary code units (see the reporter below). \<open>isWordChar\<close> is the set \<open>[A-Za-z0-9_]\<close> that \<open>\b\<close> consults,
  \<open>isLineTerminator\<close> the characters that \<open>.\<close> refuses, and \<open>Canonicalize\<close> the case folding of
  a regular expression with the \<open>i\<close> flag and without the \<open>u\<close> flag: the upper-case mapping of
  the code unit, kept only when it is a single code unit and does not send a non-ASCII
  character into ASCII. The micro sign and the y with diaeresis have their upper-case forms
  outside Latin-1 (code units 924 and 376), so the result is a number, not a \<^typ>\<open>char\<close>.
\<close>

definition code_unit :: "char \<Rightarrow> nat" where
  "code_unit c = of_char c"

definition isWordChar :: "char \<Rightarrow> bool" where
  "isWordChar c = (let n = code_unit c in
     (97 \<le> n \<and> n \<le> 122) \<or> (65 \<le> n \<and> n \<le> 90) \<or> (48 \<le> n \<and> n \<le> 57) \<or> n = 95)"

definition isLineTerminator :: "char \<Rightarrow> bool" where
  "isLineTerminator c = (code_unit c = 10 \<or> code_unit c = 13)"

definition Canonicalize :: "bool \<Rightarrow> char \<Rightarrow> nat" where
  "Canonicalize ignoreCase c = (let n = code_unit c in
     if \<not> ignoreCase then n
     else if 97 \<le> n \<and> n \<le> 122 then n - 32
     else if 224 \<le> n \<and> n \<le> 254 \<and> n \<noteq> 247 then n - 32
     else if n = 181 then 924
     else if n = 255 then 376
     else n)"

fun show_nat :: "nat \<Rightarrow> string" where
  "show_nat n = (if n < 10 then [char_of (48 + n)] else show_nat (n div 10) @ [char_of (48 + n mod 10)])"

declare show_nat.simps [simp del]

fun join :: "string \<Rightarrow> string list \<Rightarrow> string" where
  "join sep [] = []"
| "join sep [x] = x"
| "join sep (x # y # ys) = x @ sep @ join sep (y # ys)"

section \<open>The regular expressions the program uses\<close>

text \<open>
  The fragment of ECMAScript patterns that occurs in the source: pattern characters and
  identity escapes (\<open>Lit\<close>), \<open>.\<close> (\<open>Dot\<close>), a negated one-character class (\<open>NotCh\<close>), the word
  boundary \<open>\b\<close>, sequence, alternation, the lazy quantifiers \<open>*?\<close> and \<open>+?\<close> on a
  one-character atom, and a capturing group.

  The matcher is the backtracking matcher of the language as a list of successes: \<open>rmatch\<close>
  returns every way the pattern can match at the cursor, in the order backtracking tries them,
  so the head of the list is the match that \<open>exec\<close> reports. A cursor is the character before
  the position (none at index 0), the input from the position on, and the text of capture
  group 1.
\<close>

datatype atom = Lit char | Dot | NotCh char

datatype rx = Atom atom | WordB | Eps | Seq rx rx | Alt rx rx
  | LazyStar atom | LazyPlus atom | Grp rx

type_synonym mstate = "char option \<times> string \<times> string option"

fun atom_ok :: "bool \<Rightarrow> atom \<Rightarrow> char \<Rightarrow> bool" where
  "atom_ok ic (Lit c) x = (Canonicalize ic x = Canonicalize ic c)"
| "atom_ok ic Dot x = (\<not> isLineTerminator x)"
| "atom_ok ic (NotCh c) x = (Canonicalize ic x \<noteq> Canonicalize ic c)"

fun step_atom :: "bool \<Rightarrow> atom \<Rightarrow> mstate \<Rightarrow> mstate list" where
  "step_atom ic a (p, [], c) = []"
| "step_atom ic a (p, x # xs, c) = (if atom_ok ic a x then [(Some x, xs, c)] else [])"

fun lazy_star :: "bool \<Rightarrow> atom \<Rightarrow> mstate \<Rightarrow> mstate list" where
  "lazy_star ic a (p, [], c) = [(p, [], c)]"
| "lazy_star ic a (p, x # xs, c) =
     (p, x # xs, c) # (if atom_ok ic a x then lazy_star ic a (Some x, xs, c) else [])"

definition at_boundary :: "char option \<Rightarrow> string \<Rightarrow> bool" where
  "at_boundary p s =
     ((case p of None \<Rightarrow> False | Some c \<Rightarrow> isWordChar c)
      \<noteq> (case s of [] \<Rightarrow> False | x # _ \<Rightarrow> isWordChar x))"

fun rmatch :: "bool \<Rightarrow> rx \<Rightarrow> mstate \<Rightarrow> mstate list" where
  "rmatch ic (Atom a) st = step_atom ic a st"
| "rmatch ic WordB (p, s, c) = (if at_boundary p s then [(p, s, c)] else [])"
| "rmatch ic Eps st = [st]"
| "rmatch ic (Seq r1 r2) st = concat (map (rmatch ic r2) (rmatch ic r1 st))"
| "rmatch ic (Alt r1 r2) st = rmatch ic r1 st @ rmatch ic r2 st"
| "rmatch ic (LazyStar a) st = lazy_star ic a st"
| "rmatch ic (LazyPlus a) st = concat (map (lazy_star ic a) (step_atom ic a st))"
| "rmatch ic (Grp r) (p, s, c) =
     map (\<lambda>(p', s', c'). (p', s', Some (take (length s - length s') s))) (rmatch ic r (p, s, c))"

text \<open>
  \<open>rx_exec\<close> is one call of \<open>RegExp.prototype.exec\<close> on a global pattern whose \<open>lastIndex\<close>
  is the cursor: it tries the position of the cursor, then every later one up to the end of
  the input, and returns the number of characters it skipped together with the cursor after
  the match (the new \<open>lastIndex\<close>). \<open>None\<close> is the result \<open>null\<close>.
\<close>

fun rx_exec :: "bool \<Rightarrow> rx \<Rightarrow> char option \<Rightarrow> string \<Rightarrow> (nat \<times> mstate) option" where
  "rx_exec ic r p [] =
     (case rmatch ic r (p, [], None) of [] \<Rightarrow> None | st # _ \<Rightarrow> Some (0, st))"
| "rx_exec ic r p (x # xs) =
     (case rmatch ic r (p, x # xs, None) of
        st # _ \<Rightarrow> Some (0, st)
      | [] \<Rightarrow> map_option (\<lambda>(k, st). (Suc k, st)) (rx_exec ic r (Some x) xs))"

fun lits :: "string \<Rightarrow> rx" where
  "lits [] = Eps"
| "lits (c # cs) = Seq (Atom (Lit c)) (lits cs)"

text \<open>
  The three pattern literals of the source. Both annotation patterns carry the flags \<open>gi\<close>,
  the tag pattern the flag \<open>g\<close> alone.
  \<^item> \<open>/@\[(?:static|static-header)#(.*?)\]/gi\<close>
  \<^item> \<open>/@\[(?:static|static-header)#.*?\]/gi\<close>
  \<^item> \<open>/<[^>]+?>/g\<close>
\<close>

definition annotation_head :: rx where
  "annotation_head =
     Seq (lits ''@['') (Seq (Alt (lits ''static'') (lits ''static-header'')) (lits ''#''))"

definition WRAPPED_PHRASE_EXTRACTION_PATTERN :: rx where
  "WRAPPED_PHRASE_EXTRACTION_PATTERN = Seq annotation_head (Seq (Grp (LazyStar Dot)) (lits '']''))"

definition WRAPPED_PATTERN_REMOVAL_PATTERN :: rx where
  "WRAPPED_PATTERN_REMOVAL_PATTERN = Seq annotation_head (Seq (LazyStar Dot) (lits '']''))"

definition HTML_TAG_PATTERN :: rx where
  "HTML_TAG_PATTERN = Seq (lits ''<'') (Seq (LazyPlus (NotCh CHR ''>'')) (lits ''>''))"

text \<open>
  The loop \<open>while ((match = re.exec(s)) !== null) { body }\<close> on a global pattern. \<open>exec\<close> leaves
  \<open>lastIndex\<close> at the end of the match and does not move it past an empty match, so the loop
  need not end: it is a partial function, and \<open>None\<close> is the run that never leaves the loop.
\<close>

partial_function (option) exec_while ::
  "rx \<Rightarrow> (mstate \<Rightarrow> 'a \<Rightarrow> 'a) \<Rightarrow> char option \<Rightarrow> string \<Rightarrow> 'a \<Rightarrow> 'a option" where
  "exec_while re body p s acc =
     (case rx_exec True re p s of
        None \<Rightarrow> Some acc
      | Some (k, (p', s', c)) \<Rightarrow> exec_while re body p' s' (body (p', s', c) acc))"

declare exec_while.simps [code]

text \<open>
  \<open>String.prototype.replace\<close> with a global pattern and a replacement text without \<open>$\<close>:
  every match, found from left to right without overlap, is replaced; after an empty match
  the search moves on by one character, which is copied.
\<close>

function replace_all :: "bool \<Rightarrow> rx \<Rightarrow> string \<Rightarrow> char option \<Rightarrow> string \<Rightarrow> string" where
  "replace_all ic re rep p s =
     (case rx_exec ic re p s of
        None \<Rightarrow> s
      | Some (k, (p', s', c)) \<Rightarrow>
          take k s @ rep @
            (if length s' < length s - k then replace_all ic re rep p' s'
             else (case drop k s of [] \<Rightarrow> []
                   | x # xs \<Rightarrow> x # replace_all ic re rep (Some x) xs)))"
  by pat_completeness auto
termination
proof (relation "measure (\<lambda>(ic, re, rep, p, s). length s)", goal_cases)
  case 1
  show ?case by simp
next
  case (2 ic re rep p s x2 k y p' ya s' c)
  then show ?case by simp
next
  case (3 ic re rep p s x2 k y p' ya s' c x xs)
  have "length (drop k s) = Suc (length xs)" using 3 by simp
  then show ?case by simp
qed

declare replace_all.simps [simp del]

section \<open>escapeRegExp and the pattern of a bare phrase\<close>

text \<open>
  \<open>escapeRegExp\<close> puts a backslash before each of \<open>. * + ? ^ $ { } ( ) | [ ] \\<close>.
  \<open>parse_pattern\<close> is the \<open>RegExp\<close> constructor on the pattern sources the program builds:
  \<open>\b\<close>, a backslash before a syntax character (an identity escape) and any character that
  is not a syntax character. \<open>None\<close> is a source outside that fragment, which the constructor
  may reject with a \<open>SyntaxError\<close>.
\<close>

definition bsl :: char where
  "bsl = CHR 0x5C"

definition SyntaxCharacter :: "char \<Rightarrow> bool" where
  "SyntaxCharacter c = (c = bsl \<or> c \<in> set ''^$.*+?()[]{}|'')"

definition escapeRegExp :: "string \<Rightarrow> string" where
  "escapeRegExp string = concat (map (\<lambda>c. if SyntaxCharacter c then [bsl, c] else [c]) string)"

fun parse_pattern :: "string \<Rightarrow> rx option" where
  "parse_pattern [] = Some Eps"
| "parse_pattern (c # cs) =
     (if c = bsl then
        (case cs of
           [] \<Rightarrow> None
         | d # ds \<Rightarrow>
             if d = CHR ''b'' then map_option (Seq WordB) (parse_pattern ds)
             else if SyntaxCharacter d then map_option (Seq (Atom (Lit d))) (parse_pattern ds)
             else None)
      else if SyntaxCharacter c then None
      else map_option (Seq (Atom (Lit c))) (parse_pattern cs))"

definition barePhraseSource :: "string \<Rightarrow> string" where
  "barePhraseSource phrase = [bsl, CHR ''b''] @ escapeRegExp phrase @ [bsl, CHR ''b'']"

section \<open>The two passes\<close>

text \<open>
  \<open>knownWrappedPhrases\<close> is a \<open>Set\<close>: the phrases in insertion order, each once.
  \<open>unwrappedOccurrences\<close> is a \<open>Map\<close> from a phrase to its array of line numbers: an
  association list in insertion order, where \<open>AList.update\<close> is \<open>Map.prototype.set\<close>
  (a present key keeps its place, a new key goes to the end).
\<close>

type_synonym occurrences = "(string \<times> nat list) list"

definition set_add :: "'a \<Rightarrow> 'a list \<Rightarrow> 'a list" where
  "set_add x xs = (if x \<in> set xs then xs else xs @ [x])"

text \<open>The body of the loop of pass 1; capture group 1 takes part in every match.\<close>

definition add_phrase :: "mstate \<Rightarrow> string list \<Rightarrow> string list" where
  "add_phrase st known = (case st of (p, s, c) \<Rightarrow>
     (case c of None \<Rightarrow> known | Some phrase \<Rightarrow> set_add phrase known))"

fun pass1 :: "string list \<Rightarrow> string list \<Rightarrow> string list option" where
  "pass1 [] known = Some known"
| "pass1 (line # rest) known =
     (case exec_while WRAPPED_PHRASE_EXTRACTION_PATTERN add_phrase None line known of
        None \<Rightarrow> None
      | Some known' \<Rightarrow> pass1 rest known')"

text \<open>
  The cleaned line of the scanner with tag stripping (the unnamed source file) and of the
  one without (\<open>src/index.js\<close>).
\<close>

definition cleanedLine :: "string \<Rightarrow> string" where
  "cleanedLine line =
     replace_all False HTML_TAG_PATTERN '' '' None
       (replace_all True WRAPPED_PATTERN_REMOVAL_PATTERN [] None line)"

definition cleanedLine_index :: "string \<Rightarrow> string" where
  "cleanedLine_index line = replace_all True WRAPPED_PATTERN_REMOVAL_PATTERN [] None line"

text \<open>
  The body of the inner loop of pass 2, which does not look at the match. Reading the last
  element of an empty array gives \<open>undefined\<close>, which differs from every line number.
\<close>

definition note_match :: "string \<Rightarrow> nat \<Rightarrow> occurrences \<Rightarrow> occurrences" where
  "note_match phrase lineNumber occ =
     (let occ1 = (if map_of occ phrase = None then AList.update phrase [] occ else occ) in
      case map_of occ1 phrase of
        None \<Rightarrow> occ1
      | Some existingLineNumbers \<Rightarrow>
          if existingLineNumbers = [] \<or> last existingLineNumbers \<noteq> lineNumber
          then AList.update phrase (existingLineNumbers @ [lineNumber]) occ1
          else occ1)"

text \<open>
  A computation of the scanning function ends in one of three ways: it never returns
  (\<open>None\<close>), it throws (\<open>Some (Inl message)\<close>), or it returns (\<open>Some (Inr value)\<close>).
\<close>

definition scan_phrase :: "string \<Rightarrow> nat \<Rightarrow> string \<Rightarrow> occurrences \<Rightarrow> (string + occurrences) option" where
  "scan_phrase cleaned lineNumber phrase occ =
     (case parse_pattern (barePhraseSource phrase) of
        None \<Rightarrow> Some (Inl ''Invalid regular expression'')
      | Some barePhrasePattern \<Rightarrow>
          map_option Inr
            (exec_while barePhrasePattern (\<lambda>match. note_match phrase lineNumber) None cleaned occ))"

fun scan_phrases :: "string \<Rightarrow> nat \<Rightarrow> string list \<Rightarrow> occurrences \<Rightarrow> (string + occurrences) option" where
  "scan_phrases cleaned lineNumber [] occ = Some (Inr occ)"
| "scan_phrases cleaned lineNumber (phrase # phrases) occ =
     (case scan_phrase cleaned lineNumber phrase occ of
        None \<Rightarrow> None
      | Some (Inl e) \<Rightarrow> Some (Inl e)
      | Some (Inr occ') \<Rightarrow> scan_phrases cleaned lineNumber phrases occ')"

fun pass2 :: "(string \<Rightarrow> string) \<Rightarrow> string list \<Rightarrow> nat \<Rightarrow> string list \<Rightarrow> occurrences
    \<Rightarrow> (string + occurrences) option" where
  "pass2 clean known lineNumber [] occ = Some (Inr occ)"
| "pass2 clean known lineNumber (line # rest) occ =
     (case scan_phrases (clean line) (lineNumber + 1) known occ of
        None \<Rightarrow> None
      | Some (Inl e) \<Rightarrow> Some (Inl e)
      | Some (Inr occ') \<Rightarrow> pass2 clean known (lineNumber + 1) rest occ')"

section \<open>The program around the passes\<close>

text \<open>
  What the program writes is a JavaScript string: a sequence of UTF-16 code units, each a
  number below 65536 (nothing below depends on the bound). \<open>units\<close> gives the code units of
  a text of the scanner. The keys of the map that the reporter reads are such strings too,
  so that a phrase with characters outside the Basic Multilingual Plane, which takes two
  code units (a surrogate pair) for each, can be stated.
\<close>

type_synonym ustring = "nat list"

definition units :: "string \<Rightarrow> ustring" where
  "units s = map code_unit s"

text \<open>
  What a run can observe and change outside its own memory: the lines written with
  \<open>console.log\<close> and with \<open>console.error\<close>, and the number of read streams it created.
  The environment gives the first command-line argument (\<open>process.argv[2]\<close>, absent when
  \<open>None\<close>), \<open>fs.existsSync\<close>, and the outcome of reading a file line by line: its
  lines, or the message of the error that the iteration throws.
\<close>

record proc =
  out :: "ustring list"
  err :: "ustring list"
  opened :: nat

record env =
  argv2 :: "string option"
  existsSync :: "string \<Rightarrow> bool"
  readLines :: "string \<Rightarrow> string + string list"

datatype 'a ending = Exit nat | Return 'a

definition console_log :: "ustring \<Rightarrow> proc \<Rightarrow> proc" where
  "console_log msg st = st\<lparr>out := out st @ [msg]\<rparr>"

definition console_error :: "ustring \<Rightarrow> proc \<Rightarrow> proc" where
  "console_error msg st = st\<lparr>err := err st @ [msg]\<rparr>"

definition createReadStream :: "proc \<Rightarrow> proc" where
  "createReadStream st = st\<lparr>opened := opened st + 1\<rparr>"

text \<open>The \<open>catch\<close> block of the scanning function.\<close>

definition caught :: "string \<Rightarrow> string \<Rightarrow> proc \<Rightarrow> (occurrences ending \<times> proc) option" where
  "caught filepath message st =
     Some (Exit 1, console_error
       (units (''An unexpected error occurred while processing '' @ [CHR 0x27] @ filepath @ [CHR 0x27]
          @ '': '' @ message)) st)"

definition pass2_banner :: string where
  "pass2_banner = [CHR 0x0A] @ ''Pass 2: Searching for unwrapped instances (ignoring HTML tags)...''"

definition pass2_banner_index :: string where
  "pass2_banner_index = [CHR 0x0A] @ ''Pass 2: Searching for unwrapped instances...''"

text \<open>
  The scanning function. Its two versions differ in the cleaning of a line and in the
  announcement of pass 2, which are the parameters of \<open>find_occurrences\<close>.
\<close>

definition find_occurrences ::
  "(string \<Rightarrow> string) \<Rightarrow> string \<Rightarrow> env \<Rightarrow> string \<Rightarrow> proc \<Rightarrow> (occurrences ending \<times> proc) option" where
  "find_occurrences clean banner e filepath st0 =
     (if \<not> existsSync e filepath then
        Some (Exit 1, console_error
          (units (''Error: The file at '' @ [CHR 0x27] @ filepath @ [CHR 0x27] @ '' does not exist.'')) st0)
      else
        let st1 = createReadStream
                    (console_log (units ''Pass 1: Collecting phrases from wrapped patterns...'') st0) in
        case readLines e filepath of
          Inl message \<Rightarrow> caught filepath message st1
        | Inr lines1 \<Rightarrow>
           (case pass1 lines1 [] of
              None \<Rightarrow> None
            | Some knownWrappedPhrases \<Rightarrow>
                let st2 = console_log (units (''Found '' @ show_nat (length knownWrappedPhrases)
                            @ '' unique phrases in wrapped patterns.'')) st1 in
                if length knownWrappedPhrases = 0 then
                  Some (Return [],
                    console_log (units ''No wrapped phrases found to monitor for unwrapped instances.'') st2)
                else
                  let st3 = createReadStream (console_log (units banner) st2) in
                  case readLines e filepath of
                    Inl message \<Rightarrow> caught filepath message st3
                  | Inr lines2 \<Rightarrow>
                     (case pass2 clean knownWrappedPhrases 0 lines2 [] of
                        None \<Rightarrow> None
                      | Some (Inl message) \<Rightarrow> caught filepath message st3
                      | Some (Inr unwrappedOccurrences) \<Rightarrow> Some (Return unwrappedOccurrences, st3))))"

definition findUnwrappedPhraseOccurrences ::
  "env \<Rightarrow> string \<Rightarrow> proc \<Rightarrow> (occurrences ending \<times> proc) option" where
  "findUnwrappedPhraseOccurrences = find_occurrences cleanedLine pass2_banner"

definition findUnwrappedPhraseOccurrences_index ::
  "env \<Rightarrow> string \<Rightarrow> proc \<Rightarrow> (occurrences ending \<times> proc) option" where
  "findUnwrappedPhraseOccurrences_index = find_occurrences cleanedLine_index pass2_banner_index"

section \<open>The reporter\<close>

text \<open>
  The reporter works on objects that it shares with its caller, and \<open>sort\<close> changes the
  array it is called on, so the objects lie in a store: an address is an index into the
  list of objects, and a new object goes to the end. A \<open>Map\<close> holds, for each key in
  insertion order, the address of the array of line numbers.
\<close>

datatype obj = MapObj "(ustring \<times> nat) list" | NumArray "nat list" | StrArray "ustring list"

type_synonym heap = "obj list"

definition heap_get :: "heap \<Rightarrow> nat \<Rightarrow> obj option" where
  "heap_get h a = (if a < length h then Some (h ! a) else None)"

definition heap_new :: "obj \<Rightarrow> heap \<Rightarrow> nat \<times> heap" where
  "heap_new ob h = (length h, h @ [ob])"

definition heap_set :: "nat \<Rightarrow> obj \<Rightarrow> heap \<Rightarrow> heap" where
  "heap_set a ob h = (if a < length h then h[a := ob] else h)"

text \<open>
  \<open>unwrappedOccurrencesMap.size\<close> (\<open>undefined\<close>, which is not greater than 0, on an object
  that is no \<open>Map\<close>), \<open>Array.from(unwrappedOccurrencesMap.keys())\<close>, which makes a new array,
  \<open>sort()\<close>, which sorts the array at the address in place, and
  \<open>unwrappedOccurrencesMap.get(phrase)\<close>, the address of an array or \<open>undefined\<close>.
  Without a comparison function \<open>sort\<close> orders strings by their code units from left to
  right, a proper prefix first: the order of \<open>ustring\<close>.
\<close>

definition Map_size :: "nat \<Rightarrow> heap \<Rightarrow> nat" where
  "Map_size m h = (case heap_get h m of Some (MapObj entries) \<Rightarrow> length entries | _ \<Rightarrow> 0)"

definition Array_from_keys :: "nat \<Rightarrow> heap \<Rightarrow> nat \<times> heap" where
  "Array_from_keys m h =
     heap_new (StrArray (case heap_get h m of Some (MapObj entries) \<Rightarrow> map fst entries | _ \<Rightarrow> [])) h"

definition Array_sort :: "nat \<Rightarrow> heap \<Rightarrow> heap" where
  "Array_sort a h =
     (case heap_get h a of Some (StrArray xs) \<Rightarrow> heap_set a (StrArray (sort xs)) h | _ \<Rightarrow> h)"

definition Array_elements :: "nat \<Rightarrow> heap \<Rightarrow> ustring list" where
  "Array_elements a h = (case heap_get h a of Some (StrArray xs) \<Rightarrow> xs | _ \<Rightarrow> [])"

definition Map_get :: "nat \<Rightarrow> ustring \<Rightarrow> heap \<Rightarrow> nat option" where
  "Map_get m phrase h =
     (case heap_get h m of Some (MapObj entries) \<Rightarrow> map_of entries phrase | _ \<Rightarrow> None)"

definition report_line :: "ustring \<Rightarrow> nat list \<Rightarrow> ustring" where
  "report_line phrase lineNumbers =
     units (''Phrase '' @ [CHR 0x22]) @ phrase
       @ units ([CHR 0x22] @ '' found unwrapped at lines: '' @ join '', '' (map show_nat lineNumbers))"

definition report_phrase :: "nat \<Rightarrow> heap \<Rightarrow> ustring \<Rightarrow> proc \<Rightarrow> proc" where
  "report_phrase m h phrase st =
     (case Map_get m phrase h of
        None \<Rightarrow> st
      | Some lineNumbers \<Rightarrow>
          (case heap_get h lineNumbers of
             Some (NumArray ns) \<Rightarrow>
               if length ns > 0 then console_log (report_line phrase ns) st else st
           | _ \<Rightarrow> st))"

definition processResults :: "nat \<Rightarrow> heap \<times> proc \<Rightarrow> heap \<times> proc" where
  "processResults unwrappedOccurrencesMap hst =
     (case hst of (h, st) \<Rightarrow>
        if Map_size unwrappedOccurrencesMap h > 0 then
          let st1 = console_log (units ([CHR 0x0A] @ ''--- Unwrapped Phrase Occurrences Found ---'')) st;
              (sortedPhrases, h1) = Array_from_keys unwrappedOccurrencesMap h;
              h2 = Array_sort sortedPhrases h1;
              st2 = fold (report_phrase unwrappedOccurrencesMap h2) (Array_elements sortedPhrases h2) st1
          in (h2, console_log (units ''----------------------------------------'') st2)
        else
          (h, console_log (units ''No unwrapped instances of known phrases found.'') st))"

text \<open>
  The map that the scanner returned, as it lies in the store when the reporter is called:
  the arrays of line numbers in the order of the entries, then the map itself.
\<close>

definition store_record :: "occurrences \<Rightarrow> heap \<times> nat" where
  "store_record occ =
     (map (\<lambda>entry. NumArray (snd entry)) occ
        @ [MapObj (zip (map (\<lambda>entry. units (fst entry)) occ) [0 ..< length occ])],
      length occ)"

text \<open>
  The entry point: the exit status with the final process state, or \<open>None\<close> for a run that
  never ends. An absent and an empty argument are both falsy.
\<close>

definition usage_exit :: "proc \<Rightarrow> (nat \<times> proc) option" where
  "usage_exit st =
     Some (1, console_log (units ([CHR 0x0A] @ ''Please provide a file path as a command-line argument.''))
                (console_log (units ''Usage: node index.js <path_to_your_text_file>'') st))"

definition run_main ::
  "(env \<Rightarrow> string \<Rightarrow> proc \<Rightarrow> (occurrences ending \<times> proc) option) \<Rightarrow> env \<Rightarrow> (nat \<times> proc) option" where
  "run_main scan e =
     (let st0 = \<lparr>out = [], err = [], opened = 0\<rparr> in
      case argv2 e of
        None \<Rightarrow> usage_exit st0
      | Some filePath \<Rightarrow>
          if filePath = [] then usage_exit st0
          else
            let st1 = console_log (units (''Searching for unwrapped phrases in: '' @ [CHR 0x27] @ filePath
                        @ [CHR 0x27] @ [CHR 0x0A])) st0 in
            case scan e filePath st1 of
              None \<Rightarrow> None
            | Some (Exit status, st2) \<Rightarrow> Some (status, st2)
            | Some (Return foundUnwrappedOccurrences, st2) \<Rightarrow>
                (case store_record foundUnwrappedOccurrences of
                   (h, m) \<Rightarrow> Some (0, snd (processResults m (h, st2)))))"

definition main :: "env \<Rightarrow> (nat \<times> proc) option" where
  "main = run_main findUnwrappedPhraseOccurrences"

text \<open>The document of the worked example of the specification.\<close>

definition scenario_doc :: "string list" where
  "scenario_doc =
     [''@[static#Home] is great.'',
      ''Click Home to continue.'',
      ''<a href='' @ [CHR 0x22] @ ''Home'' @ [CHR 0x22] @ ''>Home</a> link'']"

text \<open>The number of iterations of the inner loop of pass 2 for one phrase on one cleaned line.\<close>

definition count_match :: "mstate \<Rightarrow> nat \<Rightarrow> nat" where
  "count_match st n = Suc n"

definition count_matches :: "string \<Rightarrow> string \<Rightarrow> nat option" where
  "count_matches phrase cleaned =
     (case parse_pattern (barePhraseSource phrase) of
        None \<Rightarrow> None
      | Some re \<Rightarrow> exec_while re count_match None cleaned 0)"

section \<open>Notions used in the statements and proofs\<close>

text \<open>
  A well-formed record at line \<open>n\<close>, for the known phrases \<open>known\<close>: the keys are distinct
  known phrases, and every array of line numbers is non-empty, strictly increasing and within
  \<open>1..n\<close>.
\<close>

definition record_ok :: "string list \<Rightarrow> nat \<Rightarrow> occurrences \<Rightarrow> bool" where
  "record_ok known n occ =
     (distinct (map fst occ) \<and>
      (\<forall>k lns. map_of occ k = Some lns \<longrightarrow>
         k \<in> set known \<and> lns \<noteq> [] \<and> sorted_wrt (<) lns \<and> (\<forall>i\<in>set lns. 1 \<le> i \<and> i \<le> n)))"

text \<open>
  The character before the cursor once the text \<open>pre\<close> has been passed, and the relation
  between a cursor and a later cursor on the same input.
\<close>

definition cursor_at :: "char option \<Rightarrow> string \<Rightarrow> char option" where
  "cursor_at p pre = (if pre = [] then p else Some (last pre))"

definition advances :: "mstate \<Rightarrow> mstate \<Rightarrow> bool" where
  "advances st st' = (case st of (p, s, c) \<Rightarrow> case st' of (p', s', c') \<Rightarrow>
     (\<exists>u. s = u @ s' \<and> p' = cursor_at p u))"

text \<open>Two texts that a pattern with the given case flag cannot tell apart.\<close>

definition ci_eq :: "bool \<Rightarrow> string \<Rightarrow> string \<Rightarrow> bool" where
  "ci_eq ic u w = (map (Canonicalize ic) u = map (Canonicalize ic) w)"

text \<open>The pattern that the constructor builds from the source of a bare phrase.\<close>

fun phrase_tail :: "string \<Rightarrow> rx" where
  "phrase_tail [] = Seq WordB Eps"
| "phrase_tail (c # cs) = Seq (Atom (Lit c)) (phrase_tail cs)"

definition bare_rx :: "string \<Rightarrow> rx" where
  "bare_rx phrase = Seq WordB (phrase_tail phrase)"

text \<open>
  The whole-word occurrence of the glossary: the phrase occurs in the line, compared without
  regard to case, with a character that is not a word constituent, or an edge of the line,
  on each side.
\<close>

definition whole_word_occurrence :: "string \<Rightarrow> string \<Rightarrow> bool" where
  "whole_word_occurrence phrase line =
     (\<exists>pre mid post. line = pre @ mid @ post \<and> ci_eq True mid phrase
        \<and> (pre = [] \<or> \<not> isWordChar (last pre)) \<and> (post = [] \<or> \<not> isWordChar (hd post)))"

text \<open>
  A tag span in a line: \<open><\<close>, one or more characters other than \<open>>\<close>, and \<open>>\<close>.
\<close>

definition has_tag_span :: "string \<Rightarrow> bool" where
  "has_tag_span line =
     (\<exists>pre u post. line = pre @ [CHR ''<''] @ u @ [CHR ''>''] @ post \<and> u \<noteq> [] \<and> CHR ''>'' \<notin> set u)"

text \<open>
  An annotation, as the glossary has it: \<open>@[static#PHRASE]\<close> or \<open>@[static-header#PHRASE]\<close>,
  the keyword in any case, the payload within one line. A line contains an annotation when
  some part of it is one.
\<close>

definition is_annotation :: "string \<Rightarrow> bool" where
  "is_annotation w =
     (\<exists>tag payload. w = ''@['' @ tag @ ''#'' @ payload @ '']''
        \<and> (ci_eq True tag ''static'' \<or> ci_eq True tag ''static-header'')
        \<and> (\<forall>x\<in>set payload. \<not> isLineTerminator x))"

definition has_annotation :: "string \<Rightarrow> bool" where
  "has_annotation line = (\<exists>pre w post. line = pre @ w @ post \<and> is_annotation w)"

text \<open>A small file system with one document, and the state of a process that has just started.\<close>

definition cat_env :: env where
  "cat_env = \<lparr>argv2 = Some ''notes.txt'', existsSync = (\<lambda>path. path = ''notes.txt''),
     readLines = (\<lambda>path. Inr [''@[static#cat] cat'', ''category'', ''cat and Cat''])\<rparr>"

definition cpp_env :: env where
  "cpp_env = \<lparr>argv2 = Some ''notes.txt'', existsSync = (\<lambda>path. path = ''notes.txt''),
     readLines = (\<lambda>path. Inr [''@[static#C++] is wrapped'', ''use C++ now''])\<rparr>"

definition plain_env :: env where
  "plain_env = \<lparr>argv2 = Some ''notes.txt'', existsSync = (\<lambda>path. path = ''notes.txt''),
     readLines = (\<lambda>path. Inr [''@[static#cat] if a < b'', ''the cat <> dog > cat''])\<rparr>"

definition prose_env :: env where
  "prose_env = \<lparr>argv2 = Some ''notes.txt'', existsSync = (\<lambda>path. path = ''notes.txt''),
     readLines = (\<lambda>path. Inr [''plain prose'', ''no marker in [static#x] or @static#y]''])\<rparr>"

definition greek_env :: env where
  "greek_env = \<lparr>argv2 = Some ''notes.txt'', existsSync = (\<lambda>path. path = ''notes.txt''),
     readLines = (\<lambda>path. Inr [''@[static#zeta] @[static#Alpha] @[static#alpha] @[static#_b]'',
       ''Alpha'', ''zeta _b'', ''the zeta'',
       [], [], [], [], [], ''Zeta again''])\<rparr>"

definition empty_phrase_env :: env where
  "empty_phrase_env = \<lparr>argv2 = Some ''notes.txt'', existsSync = (\<lambda>path. path = ''notes.txt''),
     readLines = (\<lambda>path. Inr [''@[static#] marks nothing'', ''plain''])\<rparr>"

definition no_arg_env :: env where
  "no_arg_env = \<lparr>argv2 = None, existsSync = (\<lambda>path. path = ''notes.txt''),
     readLines = (\<lambda>path. Inr [''@[static#cat] cat''])\<rparr>"

definition missing_env :: env where
  "missing_env = \<lparr>argv2 = Some ''gone.txt'', existsSync = (\<lambda>path. path = ''notes.txt''),
     readLines = (\<lambda>path. Inr [''@[static#cat] cat''])\<rparr>"

definition unreadable_env :: env where
  "unreadable_env = \<lparr>argv2 = Some ''notes.txt'', existsSync = (\<lambda>path. path = ''notes.txt''),
     readLines = (\<lambda>path. Inl ''EACCES: permission denied'')\<rparr>"

text \<open>The last line on standard output is the last line of a report.\<close>

definition report_printed :: "proc \<Rightarrow> bool" where
  "report_printed st =
     (out st \<noteq> [] \<and>
      (last (out st) = units ''----------------------------------------''
       \<or> last (out st) = units ''No unwrapped instances of known phrases found.''))"

definition searching_line :: "string \<Rightarrow> ustring" where
  "searching_line filePath =
     units (''Searching for unwrapped phrases in: '' @ [CHR 0x27] @ filePath @ [CHR 0x27] @ [CHR 0x0A])"

text \<open>
  The code points of a UTF-16 string: a high surrogate followed by a low surrogate is one
  code point beyond the Basic Multilingual Plane, any other code unit is its own code point.
\<close>

fun code_points :: "ustring \<Rightarrow> nat list" where
  "code_points [] = []"
| "code_points [u] = [u]"
| "code_points (u # v # us) =
     (if 0xD800 \<le> u \<and> u \<le> 0xDBFF \<and> 0xDC00 \<le> v \<and> v \<le> 0xDFFF
      then (0x10000 + (u - 0xD800) * 0x400 + (v - 0xDC00)) # code_points us
      else u # code_points (v # us))"

text \<open>The line numbers that the store has at an address.\<close>

definition line_numbers_at :: "heap \<Rightarrow> nat \<Rightarrow> nat list" where
  "line_numbers_at h a = (case heap_get h a of Some (NumArray ns) \<Rightarrow> ns | _ \<Rightarrow> [])"

text \<open>
  The store with the map that the scanner returns on the document of \<open>greek_env\<close>, and a
  store with a map of two phrases on line 2, entered in this order: \<open>a\<close>, the fullwidth
  tilde U+FF5E, \<open>b\<close>; and \<open>a\<close>, the emoji U+1F600 (the surrogate pair D83D DE00), \<open>b\<close>.
\<close>

definition greek_heap :: heap where
  "greek_heap =
     [NumArray [2], NumArray [2], NumArray [3, 4, 10], NumArray [3],
      MapObj [(units ''Alpha'', 0), (units ''alpha'', 1), (units ''zeta'', 2), (units ''_b'', 3)]]"

definition astral_heap :: heap where
  "astral_heap =
     [NumArray [2], NumArray [2],
      MapObj [([0x61, 0xFF5E, 0x62], 0), ([0x61, 0xD83D, 0xDE00, 0x62], 1)]]"

definition fresh_proc :: proc where
  "fresh_proc = \<lparr>out = [], err = [], opened = 0\<rparr>"

section \<open>The worked example\<close>

text \<open>
  C1: on the three-line document of the specification, pass 1 gives the known phrases
  \<open>{Home}\<close> and pass 2 gives the record \<open>{Home: [2, 3]}\<close>. The third line is cleaned to
  \<open>Home\<close> between blanks followed by \<open>link\<close>: the tag spans, with the attribute value, are
  gone, and the phrase matches exactly once in what is left.
\<close>

theorem scenario_home:
  "pass1 scenario_doc [] = Some [''Home'']
   \<and> pass2 cleanedLine [''Home''] 0 scenario_doc [] = Some (Inr [(''Home'', [2, 3])])
   \<and> cleanedLine (scenario_doc ! 2) = '' Home  link''
   \<and> count_matches ''Home'' (cleanedLine (scenario_doc ! 2)) = Some 1"
  by code_simp

lemma exec_while_invariant:
  assumes run: "exec_while re body p s acc = Some r" and "I acc" and "\<And>st a. I a \<Longrightarrow> I (body st a)"
  shows "I r"
proof -
  have "(\<forall>st a. I a \<longrightarrow> I (body st a)) \<longrightarrow> I acc \<longrightarrow> I r"
  proof (rule exec_while.raw_induct
      [where P = "\<lambda>re body p s acc r. (\<forall>st a. I a \<longrightarrow> I (body st a)) \<longrightarrow> I acc \<longrightarrow> I r", OF _ run])
    fix ew re body p s acc r
    assume IH: "\<And>re body p s acc r. ew re body p s acc = Some r
        \<Longrightarrow> (\<forall>st a. I a \<longrightarrow> I (body st a)) \<longrightarrow> I acc \<longrightarrow> I r"
      and unf: "(case rx_exec True re p s of None \<Rightarrow> Some acc
          | Some (k, p', s', c) \<Rightarrow> ew re body p' s' (body (p', s', c) acc)) = Some r"
    show "(\<forall>st a. I a \<longrightarrow> I (body st a)) \<longrightarrow> I acc \<longrightarrow> I r"
    proof (cases "rx_exec True re p s")
      case None
      with unf show ?thesis by simp
    next
      case (Some a)
      obtain k p' s' c where a: "a = (k, p', s', c)" by (cases a) auto
      from unf Some a have "ew re body p' s' (body (p', s', c) acc) = Some r" by simp
      from IH[OF this] show ?thesis by blast
    qed
  qed
  with assms show ?thesis by blast
qed

lemma exec_while_stuck:
  assumes stuck: "rx_exec True re p s = Some (0, (p, s, c))"
  shows "exec_while re body p s acc = None"
proof (cases "exec_while re body p s acc")
  case None
  then show ?thesis .
next
  case (Some r)
  have "rx_exec True re p s \<noteq> Some (0, (p, s, c))"
  proof (rule exec_while.raw_induct
      [where P = "\<lambda>re body p s acc r. rx_exec True re p s \<noteq> Some (0, (p, s, c))", OF _ Some])
    fix ew re body p s acc r
    assume IH: "\<And>re body p s acc r. ew re body p s acc = Some r
        \<Longrightarrow> rx_exec True re p s \<noteq> Some (0, (p, s, c))"
      and unf: "(case rx_exec True re p s of None \<Rightarrow> Some acc
          | Some (k, p', s', c) \<Rightarrow> ew re body p' s' (body (p', s', c) acc)) = Some r"
    show "rx_exec True re p s \<noteq> Some (0, (p, s, c))"
    proof
      assume st: "rx_exec True re p s = Some (0, p, s, c)"
      with unf have "ew re body p s (body (p, s, c) acc) = Some r" by simp
      from IH[OF this] st show False by simp
    qed
  qed
  with stuck show ?thesis by simp
qed

lemma exec_while_total:
  assumes cons: "\<And>p s k p' s' c. rx_exec True re p s = Some (k, (p', s', c)) \<Longrightarrow> length s' < length s"
  shows "\<exists>r. exec_while re body p s acc = Some r"
proof (induct s arbitrary: p acc rule: length_induct)
  case (1 s)
  show ?case
  proof (cases "rx_exec True re p s")
    case None
    then show ?thesis by (subst exec_while.simps) simp
  next
    case (Some a)
    obtain k p' s' c where a: "a = (k, p', s', c)" by (cases a) auto
    from cons Some a have "length s' < length s" by blast
    with 1 have "\<exists>r. exec_while re body p' s' (body (p', s', c) acc) = Some r" by blast
    with Some a show ?thesis by (subst exec_while.simps) simp
  qed
qed

lemma exec_while_once:
  assumes cons: "\<And>p s k p' s' c. rx_exec True re p s = Some (k, (p', s', c)) \<Longrightarrow> length s' < length s"
    and idem: "\<And>a. f (f a) = f a"
  shows "exec_while re (\<lambda>m. f) p s acc = Some (if rx_exec True re p s = None then acc else f acc)"
proof -
  have step: "exec_while re (\<lambda>m. f) p s (f acc) = Some (f acc)" for p s acc
  proof (induct s arbitrary: p rule: length_induct)
    case (1 s)
    show ?case
    proof (cases "rx_exec True re p s")
      case None
      then show ?thesis by (subst exec_while.simps) simp
    next
      case (Some a)
      obtain k p' s' c where a: "a = (k, p', s', c)" by (cases a) auto
      from cons Some a have "length s' < length s" by blast
      with 1 have "exec_while re (\<lambda>m. f) p' s' (f acc) = Some (f acc)" by blast
      with Some a idem show ?thesis by (subst exec_while.simps) simp
    qed
  qed
  show ?thesis
  proof (cases "rx_exec True re p s")
    case None
    then show ?thesis by (subst exec_while.simps) simp
  next
    case (Some a)
    obtain k p' s' c where a: "a = (k, p', s', c)" by (cases a) auto
    with Some step[of p' s' acc] show ?thesis by (subst exec_while.simps) simp
  qed
qed

lemma record_ok_empty: "record_ok known n []"
  by (simp add: record_ok_def)

lemma record_ok_mono: "record_ok known n occ \<Longrightarrow> n \<le> m \<Longrightarrow> record_ok known m occ"
  by (fastforce simp: record_ok_def)

lemma sorted_wrt_snoc_less:
  fixes n :: nat
  assumes "sorted_wrt (<) xs" and "\<forall>i\<in>set xs. i \<le> n" and "xs = [] \<or> last xs \<noteq> n"
  shows "sorted_wrt (<) (xs @ [n])"
proof (cases xs rule: rev_cases)
  case Nil
  then show ?thesis by simp
next
  case (snoc ys l)
  with assms(3) have "l \<noteq> n" by simp
  moreover from assms(2) snoc have "l \<le> n" by simp
  ultimately have "l < n" by simp
  moreover from assms(1) snoc have "\<forall>i\<in>set ys. i < l" by (simp add: sorted_wrt_append)
  ultimately have "\<forall>i\<in>set xs. i < n" using snoc by auto
  with assms(1) show ?thesis by (simp add: sorted_wrt_append)
qed

lemma note_match_ok:
  assumes ok: "record_ok known n occ" and ph: "phrase \<in> set known" and n: "1 \<le> n"
  shows "record_ok known n (note_match phrase n occ)"
proof (cases "map_of occ phrase")
  case None
  then have eq: "note_match phrase n occ = AList.update phrase [n] (AList.update phrase [] occ)"
    by (simp add: note_match_def update_conv')
  show ?thesis unfolding eq using ok ph n
    by (auto simp: record_ok_def update_conv' distinct_update)
next
  case (Some lns)
  show ?thesis
  proof (cases "lns = [] \<or> last lns \<noteq> n")
    case True
    with Some have eq: "note_match phrase n occ = AList.update phrase (lns @ [n]) occ"
      by (simp add: note_match_def)
    from ok Some have s: "sorted_wrt (<) lns" and b: "\<forall>i\<in>set lns. 1 \<le> i \<and> i \<le> n"
      by (auto simp: record_ok_def)
    from s b True have "sorted_wrt (<) (lns @ [n])" by (intro sorted_wrt_snoc_less) auto
    with ok ph n b show ?thesis unfolding eq
      by (auto simp: record_ok_def update_conv' distinct_update)
  next
    case False
    with Some have "note_match phrase n occ = occ" by (simp add: note_match_def)
    with ok show ?thesis by simp
  qed
qed

lemma scan_phrase_ok:
  assumes "scan_phrase cleaned n phrase occ = Some (Inr occ')"
    and "record_ok known n occ" and "phrase \<in> set known" and "1 \<le> n"
  shows "record_ok known n occ'"
proof (cases "parse_pattern (barePhraseSource phrase)")
  case None
  with assms(1) show ?thesis by (simp add: scan_phrase_def)
next
  case (Some re)
  with assms(1) have "exec_while re (\<lambda>match. note_match phrase n) None cleaned occ = Some occ'"
    by (auto simp: scan_phrase_def)
  then show ?thesis
    by (rule exec_while_invariant) (use assms in \<open>auto intro: note_match_ok\<close>)
qed

lemma scan_phrases_ok:
  assumes "scan_phrases cleaned n phrases occ = Some (Inr occ')"
    and "record_ok known n occ" and "set phrases \<subseteq> set known" and "1 \<le> n"
  shows "record_ok known n occ'"
  using assms
proof (induct phrases arbitrary: occ)
  case Nil
  then show ?case by simp
next
  case (Cons phrase phrases)
  from Cons.prems(1) obtain occ1 where
    one: "scan_phrase cleaned n phrase occ = Some (Inr occ1)"
    and more: "scan_phrases cleaned n phrases occ1 = Some (Inr occ')"
    by (auto split: option.splits sum.splits)
  from one Cons.prems have "record_ok known n occ1" by (auto intro: scan_phrase_ok)
  with more Cons show ?case by auto
qed

lemma pass2_ok:
  assumes "pass2 clean known n lines occ = Some (Inr occ')" and "record_ok known n occ"
  shows "record_ok known (n + length lines) occ'"
  using assms
proof (induct lines arbitrary: n occ)
  case Nil
  then show ?case by simp
next
  case (Cons line rest)
  from Cons.prems(1) obtain occ1 where
    one: "scan_phrases (clean line) (n + 1) known occ = Some (Inr occ1)"
    and more: "pass2 clean known (n + 1) rest occ1 = Some (Inr occ')"
    by (auto split: option.splits sum.splits)
  from Cons.prems(2) have "record_ok known (n + 1) occ" by (rule record_ok_mono) simp
  with one have "record_ok known (n + 1) occ1" by (auto intro: scan_phrases_ok)
  with more Cons.hyps have "record_ok known (n + 1 + length rest) occ'" by blast
  then show ?case by simp
qed

lemma cursor_at_Nil [simp]: "cursor_at p [] = p"
  by (simp add: cursor_at_def)

lemma cursor_at_append [simp]: "cursor_at (cursor_at p u) v = cursor_at p (u @ v)"
  by (simp add: cursor_at_def)

lemma cursor_at_Cons [simp]: "cursor_at p (x # v) = cursor_at (Some x) v"
  by (simp add: cursor_at_def)

lemma advances_refl: "advances st st"
  by (cases st) (auto simp: advances_def)

lemma advances_trans: "advances a b \<Longrightarrow> advances b c \<Longrightarrow> advances a c"
  by (cases a, cases b, cases c) (auto simp: advances_def)

lemma step_atom_iff:
  "st' \<in> set (step_atom ic a (p, s, c)) \<longleftrightarrow>
     (\<exists>x xs. s = x # xs \<and> atom_ok ic a x \<and> st' = (Some x, xs, c))"
  by (cases s) auto

lemma lazy_star_iff:
  "st' \<in> set (lazy_star ic a (p, s, c)) \<longleftrightarrow>
     (\<exists>u s'. s = u @ s' \<and> (\<forall>x\<in>set u. atom_ok ic a x) \<and> st' = (cursor_at p u, s', c))"
proof (induct s arbitrary: p)
  case Nil
  then show ?case by auto
next
  case (Cons x xs)
  show ?case
  proof
    assume "st' \<in> set (lazy_star ic a (p, x # xs, c))"
    then consider "st' = (p, x # xs, c)"
      | "atom_ok ic a x" "st' \<in> set (lazy_star ic a (Some x, xs, c))"
      by (auto split: if_splits)
    then show "\<exists>u s'. x # xs = u @ s' \<and> (\<forall>x\<in>set u. atom_ok ic a x) \<and> st' = (cursor_at p u, s', c)"
    proof cases
      case 1
      then have "x # xs = [] @ (x # xs) \<and> (\<forall>x\<in>set []. atom_ok ic a x) \<and> st' = (cursor_at p [], x # xs, c)"
        by simp
      then show ?thesis by blast
    next
      case 2
      with Cons[of "Some x"] obtain u s' where
        "xs = u @ s'" "\<forall>x\<in>set u. atom_ok ic a x" "st' = (cursor_at (Some x) u, s', c)" by blast
      with 2(1) have "x # xs = (x # u) @ s' \<and> (\<forall>y\<in>set (x # u). atom_ok ic a y)
          \<and> st' = (cursor_at p (x # u), s', c)" by simp
      then show ?thesis by blast
    qed
  next
    assume "\<exists>u s'. x # xs = u @ s' \<and> (\<forall>x\<in>set u. atom_ok ic a x) \<and> st' = (cursor_at p u, s', c)"
    then obtain u s' where u: "x # xs = u @ s'" "\<forall>x\<in>set u. atom_ok ic a x"
      "st' = (cursor_at p u, s', c)" by blast
    show "st' \<in> set (lazy_star ic a (p, x # xs, c))"
    proof (cases u)
      case Nil
      with u have "st' = (p, x # xs, c)" by simp
      then show ?thesis by simp
    next
      case (Cons y ys)
      with u have "x = y" "xs = ys @ s'" "atom_ok ic a x" "\<forall>x\<in>set ys. atom_ok ic a x"
        "st' = (cursor_at (Some x) ys, s', c)" by auto
      with Cons.hyps[of "Some x"] show ?thesis by auto
    qed
  qed
qed

lemma advancesI: "s = u @ s' \<Longrightarrow> p' = cursor_at p u \<Longrightarrow> advances (p, s, c) (p', s', c')"
  unfolding advances_def by blast

lemma advancesE:
  assumes "advances (p, s, c) (p', s', c')"
  obtains u where "s = u @ s'" and "p' = cursor_at p u"
  using assms unfolding advances_def by blast

lemma rmatch_advances:
  "st' \<in> set (rmatch ic r st) \<Longrightarrow> advances st st'"
proof (induct r arbitrary: st st')
  case (Atom a)
  obtain p s c where st: "st = (p, s, c)" by (cases st)
  from Atom obtain x xs where "s = x # xs" "st' = (Some x, xs, c)"
    unfolding st by (auto simp only: rmatch.simps step_atom_iff)
  then have "s = [x] @ xs" "Some x = cursor_at p [x]" by simp_all
  then show ?case unfolding st \<open>st' = (Some x, xs, c)\<close> by (rule advancesI)
next
  case WordB
  obtain p s c where st: "st = (p, s, c)" by (cases st)
  from WordB have "st' = st" unfolding st by (simp split: if_splits)
  then show ?case by (simp add: advances_refl)
next
  case Eps
  then show ?case by (simp add: advances_refl)
next
  case (Seq r1 r2)
  from Seq(3) obtain mid where "mid \<in> set (rmatch ic r1 st)" "st' \<in> set (rmatch ic r2 mid)"
    by auto
  with Seq(1,2) show ?case by (blast intro: advances_trans)
next
  case (Alt r1 r2)
  from Alt(3) have "st' \<in> set (rmatch ic r1 st) \<or> st' \<in> set (rmatch ic r2 st)" by simp
  with Alt(1,2) show ?case by blast
next
  case (LazyStar a)
  obtain p s c where st: "st = (p, s, c)" by (cases st)
  from LazyStar obtain u s' where "s = u @ s'" "st' = (cursor_at p u, s', c)"
    unfolding st by (auto simp only: rmatch.simps lazy_star_iff)
  then show ?case unfolding st by (simp add: advancesI)
next
  case (LazyPlus a)
  obtain p s c where st: "st = (p, s, c)" by (cases st)
  from LazyPlus obtain mid where "mid \<in> set (step_atom ic a (p, s, c))"
    "st' \<in> set (lazy_star ic a mid)" unfolding st by auto
  then obtain x xs where s: "s = x # xs" "atom_ok ic a x"
    "st' \<in> set (lazy_star ic a (Some x, xs, c))"
    by (auto simp only: step_atom_iff)
  then obtain u s' where u: "xs = u @ s'" "st' = (cursor_at (Some x) u, s', c)"
    by (auto simp only: lazy_star_iff)
  with s have "s = (x # u) @ s'" "cursor_at (Some x) u = cursor_at p (x # u)" by simp_all
  then show ?case unfolding st u(2) by (rule advancesI)
next
  case (Grp r)
  obtain p s c where st: "st = (p, s, c)" by (cases st)
  from Grp(2) obtain p' s' c' where in_r: "(p', s', c') \<in> set (rmatch ic r (p, s, c))"
    and st': "st' = (p', s', Some (take (length s - length s') s))"
    unfolding st by auto
  from Grp(1)[OF in_r] obtain u where "s = u @ s'" "p' = cursor_at p u" by (rule advancesE)
  then show ?case unfolding st st' by (rule advancesI)
qed

lemma rx_exec_SomeD:
  "rx_exec ic r p s = Some (k, st') \<Longrightarrow>
     \<exists>pre rest tl. s = pre @ rest \<and> k = length pre \<and> rmatch ic r (cursor_at p pre, rest, None) = st' # tl"
proof (induct s arbitrary: p k)
  case Nil
  then show ?case by (auto split: list.splits)
next
  case (Cons x xs)
  show ?case
  proof (cases "rmatch ic r (p, x # xs, None)")
    case Nil
    with Cons.prems obtain k' where k: "k = Suc k'" "rx_exec ic r (Some x) xs = Some (k', st')"
      by auto
    from Cons.hyps[OF k(2)] obtain pre rest tl where
      "xs = pre @ rest" "k' = length pre" "rmatch ic r (cursor_at (Some x) pre, rest, None) = st' # tl"
      by blast
    with k have "x # xs = (x # pre) @ rest \<and> k = length (x # pre)
        \<and> rmatch ic r (cursor_at p (x # pre), rest, None) = st' # tl" by simp
    then show ?thesis by blast
  next
    case (Cons a tl)
    with Cons.prems have "k = 0" "a = st'" by auto
    with Cons have "x # xs = [] @ (x # xs) \<and> k = length ([]::string)
        \<and> rmatch ic r (cursor_at p [], x # xs, None) = st' # tl" by simp
    then show ?thesis by blast
  qed
qed

lemma rx_exec_None_iff:
  "rx_exec ic r p s = None \<longleftrightarrow>
     (\<forall>pre rest. s = pre @ rest \<longrightarrow> rmatch ic r (cursor_at p pre, rest, None) = [])"
proof (induct s arbitrary: p)
  case Nil
  then show ?case by (auto split: list.splits)
next
  case (Cons x xs)
  show ?case
  proof (cases "rmatch ic r (p, x # xs, None)")
    case Nil
    have "(\<forall>pre rest. x # xs = pre @ rest \<longrightarrow> rmatch ic r (cursor_at p pre, rest, None) = [])
      \<longleftrightarrow> (\<forall>pre rest. xs = pre @ rest \<longrightarrow> rmatch ic r (cursor_at (Some x) pre, rest, None) = [])"
      (is "?L \<longleftrightarrow> ?R")
    proof
      assume L: ?L
      show ?R
      proof (intro allI impI)
        fix pre rest assume "xs = pre @ rest"
        then have "x # xs = (x # pre) @ rest" by simp
        with L have "rmatch ic r (cursor_at p (x # pre), rest, None) = []" by blast
        then show "rmatch ic r (cursor_at (Some x) pre, rest, None) = []" by simp
      qed
    next
      assume R: ?R
      show ?L
      proof (intro allI impI)
        fix pre rest assume s: "x # xs = pre @ rest"
        show "rmatch ic r (cursor_at p pre, rest, None) = []"
        proof (cases pre)
          case Nil
          with s \<open>rmatch ic r (p, x # xs, None) = []\<close> show ?thesis by simp
        next
          case (Cons y ys)
          with s have "xs = ys @ rest" "y = x" by auto
          with R have "rmatch ic r (cursor_at (Some x) ys, rest, None) = []" by blast
          with Cons \<open>y = x\<close> show ?thesis by simp
        qed
      qed
    qed
    with Nil Cons.hyps[of "Some x"] show ?thesis by simp
  next
    case (Cons a tl)
    then have "rx_exec ic r p (x # xs) \<noteq> None" by simp
    moreover have "\<not> (\<forall>pre rest. x # xs = pre @ rest \<longrightarrow> rmatch ic r (cursor_at p pre, rest, None) = [])"
    proof
      assume "\<forall>pre rest. x # xs = pre @ rest \<longrightarrow> rmatch ic r (cursor_at p pre, rest, None) = []"
      then have "rmatch ic r (cursor_at p [], x # xs, None) = []" by (metis append_Nil)
      with Cons show False by simp
    qed
    ultimately show ?thesis by blast
  qed
qed

lemma rx_exec_suffix:
  assumes "rx_exec ic r p s = Some (k, (p', s', c))"
  shows "\<exists>m. drop k s = m @ s' \<and> k \<le> length s"
proof -
  from rx_exec_SomeD[OF assms] obtain pre rest tl where
    s: "s = pre @ rest" "k = length pre" and m: "rmatch ic r (cursor_at p pre, rest, None) = (p', s', c) # tl"
    by blast
  from m have "(p', s', c) \<in> set (rmatch ic r (cursor_at p pre, rest, None))" by simp
  then have "advances (cursor_at p pre, rest, None) (p', s', c)" by (rule rmatch_advances)
  then obtain u where "rest = u @ s'" by (auto simp: advances_def)
  with s show ?thesis by auto
qed

lemma find_occurrences_ReturnD:
  assumes "map_option fst (find_occurrences clean banner e filepath st) = Some (Return occ)"
  shows "\<exists>lines known. readLines e filepath = Inr lines \<and> pass1 lines [] = Some known \<and>
           (if known = [] then occ = [] else pass2 clean known 0 lines [] = Some (Inr occ))"
  using assms unfolding find_occurrences_def caught_def Let_def
  by (auto split: if_splits sum.splits option.splits)



section \<open>Invariants of the occurrence record\<close>

text \<open>
  C5: in the record that the scanner returns, the line numbers of every phrase are strictly
  increasing, so no line number occurs twice for a phrase, and they count the lines of the
  document from 1.
\<close>

theorem line_numbers_increasing:
  assumes "map_option fst (findUnwrappedPhraseOccurrences e filepath st) = Some (Return occ)"
    and "readLines e filepath = Inr lines"
    and "(phrase, lineNumbers) \<in> set occ"
  shows "sorted_wrt (<) lineNumbers \<and> distinct lineNumbers
         \<and> (\<forall>n\<in>set lineNumbers. 1 \<le> n \<and> n \<le> length lines)"
proof -
  from find_occurrences_ReturnD[OF assms(1)[unfolded findUnwrappedPhraseOccurrences_def]] assms(2)
  obtain known where k: "pass1 lines [] = Some known"
    "if known = [] then occ = [] else pass2 cleanedLine known 0 lines [] = Some (Inr occ)"
    by auto
  from assms(3) have "occ \<noteq> []" by auto
  with k have "pass2 cleanedLine known 0 lines [] = Some (Inr occ)" by (auto split: if_splits)
  then have ok: "record_ok known (0 + length lines) occ" by (rule pass2_ok) (rule record_ok_empty)
  then have "distinct (map fst occ)" by (simp add: record_ok_def)
  with assms(3) have "map_of occ phrase = Some lineNumbers" by simp
  with ok have "sorted_wrt (<) lineNumbers" "\<forall>n\<in>set lineNumbers. 1 \<le> n \<and> n \<le> length lines"
    by (auto simp: record_ok_def)
  then show ?thesis by (simp add: strict_sorted_iff)
qed

text \<open>
  On the document of \<open>cat_env\<close> the phrase matches twice on line 3, which is recorded once.
\<close>

theorem line_numbers_increasing_witness:
  "map_option fst (findUnwrappedPhraseOccurrences cat_env ''notes.txt'' fresh_proc)
     = Some (Return [(''cat'', [1, 3])])
   \<and> count_matches ''cat'' (cleanedLine ''cat and Cat'') = Some 2
   \<and> sorted_wrt (<) [1, 3 :: nat] \<and> distinct [1, 3 :: nat]
   \<and> set [1, 3 :: nat] \<subseteq> {1 .. length [''@[static#cat] cat'', ''category'', ''cat and Cat'']}"
proof -
  have run: "map_option fst (findUnwrappedPhraseOccurrences cat_env ''notes.txt'' fresh_proc)
     = Some (Return [(''cat'', [1, 3])])" by code_simp
  have rd: "readLines cat_env ''notes.txt'' = Inr [''@[static#cat] cat'', ''category'', ''cat and Cat'']"
    by (simp add: cat_env_def)
  have twice: "count_matches ''cat'' (cleanedLine ''cat and Cat'') = Some 2" by code_simp
  from line_numbers_increasing[OF run rd, of "''cat''" "[1, 3]"] run twice show ?thesis by auto
qed

text \<open>
  C6: every key of the record that the scanner returns is one of the known phrases that
  pass 1 collected from the same document.
\<close>

theorem record_keys_known:
  assumes "map_option fst (findUnwrappedPhraseOccurrences e filepath st) = Some (Return occ)"
    and "readLines e filepath = Inr lines"
    and "pass1 lines [] = Some known"
  shows "fst ` set occ \<subseteq> set known"
proof (cases "occ = []")
  case True
  then show ?thesis by simp
next
  case False
  from find_occurrences_ReturnD[OF assms(1)[unfolded findUnwrappedPhraseOccurrences_def]] assms(2,3)
  have "if known = [] then occ = [] else pass2 cleanedLine known 0 lines [] = Some (Inr occ)"
    by auto
  with False have "pass2 cleanedLine known 0 lines [] = Some (Inr occ)" by (auto split: if_splits)
  then have ok: "record_ok known (0 + length lines) occ" by (rule pass2_ok) (rule record_ok_empty)
  show ?thesis
  proof
    fix k assume "k \<in> fst ` set occ"
    then obtain lns where "(k, lns) \<in> set occ" by auto
    moreover from ok have "distinct (map fst occ)" by (simp add: record_ok_def)
    ultimately have "map_of occ k = Some lns" by simp
    with ok show "k \<in> set known" by (auto simp: record_ok_def)
  qed
qed

theorem record_keys_known_witness:
  "map_option fst (findUnwrappedPhraseOccurrences cat_env ''notes.txt'' fresh_proc)
     = Some (Return [(''cat'', [1, 3])])
   \<and> pass1 [''@[static#cat] cat'', ''category'', ''cat and Cat''] [] = Some [''cat'']
   \<and> fst ` set [(''cat'', [1, 3 :: nat])] \<subseteq> set [''cat'']"
proof -
  have run: "map_option fst (findUnwrappedPhraseOccurrences cat_env ''notes.txt'' fresh_proc)
     = Some (Return [(''cat'', [1, 3])])" by code_simp
  have rd: "readLines cat_env ''notes.txt'' = Inr [''@[static#cat] cat'', ''category'', ''cat and Cat'']"
    by (simp add: cat_env_def)
  have p1: "pass1 [''@[static#cat] cat'', ''category'', ''cat and Cat''] [] = Some [''cat'']"
    by code_simp
  from record_keys_known[OF run rd p1] run p1 show ?thesis by simp
qed

section \<open>What the patterns match\<close>

lemma code_unit_inject: "code_unit x = code_unit y \<longleftrightarrow> x = y"
  by (simp add: code_unit_def)

lemma code_unit_less: "code_unit x < 256"
  unfolding code_unit_def by (rule nat_of_char_less_256)

lemma Canonicalize_False: "Canonicalize False x = Canonicalize False y \<longleftrightarrow> x = y"
  by (simp add: Canonicalize_def code_unit_inject)

lemma Canonicalize_plain:
  assumes "code_unit c < 65 \<or> (90 < code_unit c \<and> code_unit c < 97) \<or> (122 < code_unit c \<and> code_unit c < 128)"
  shows "Canonicalize True x = Canonicalize True c \<longleftrightarrow> x = c"
proof
  assume eq: "Canonicalize True x = Canonicalize True c"
  from assms have c: "Canonicalize True c = code_unit c" by (auto simp: Canonicalize_def Let_def)
  from eq[unfolded c] assms code_unit_less[of x] have "code_unit x = code_unit c"
    by (auto simp: Canonicalize_def Let_def split: if_splits)
  then show "x = c" by (simp add: code_unit_inject)
qed simp

lemma Canonicalize_word:
  assumes "Canonicalize True x = Canonicalize True y"
  shows "isWordChar x = isWordChar y"
  using assms code_unit_less[of x] code_unit_less[of y]
  unfolding Canonicalize_def isWordChar_def Let_def
  by (auto split: if_splits)

lemma ci_eq_length: "ci_eq ic u w \<Longrightarrow> length u = length w"
  unfolding ci_eq_def by (rule map_eq_imp_length_eq)

lemma ci_eq_Nil [simp]: "ci_eq ic u [] \<longleftrightarrow> u = []" "ci_eq ic [] w \<longleftrightarrow> w = []"
  by (auto simp: ci_eq_def)

lemma ci_eq_Cons:
  "ci_eq ic u (c # cs) \<longleftrightarrow> (\<exists>x xs. u = x # xs \<and> Canonicalize ic x = Canonicalize ic c \<and> ci_eq ic xs cs)"
  by (cases u) (auto simp: ci_eq_def)

lemma rmatch_lits_iff:
  "(p', s', c') \<in> set (rmatch ic (lits w) (p, s, c)) \<longleftrightarrow>
     (\<exists>u. s = u @ s' \<and> ci_eq ic u w \<and> p' = cursor_at p u \<and> c' = c)"
proof (induct w arbitrary: p s)
  case Nil
  then show ?case by auto
next
  case (Cons a w)
  have "(p', s', c') \<in> set (rmatch ic (lits (a # w)) (p, s, c)) \<longleftrightarrow>
      (\<exists>x xs. s = x # xs \<and> Canonicalize ic x = Canonicalize ic a
          \<and> (p', s', c') \<in> set (rmatch ic (lits w) (Some x, xs, c)))"
    by (cases s) auto
  also have "\<dots> \<longleftrightarrow> (\<exists>x xs. s = x # xs \<and> Canonicalize ic x = Canonicalize ic a
          \<and> (\<exists>u. xs = u @ s' \<and> ci_eq ic u w \<and> p' = cursor_at (Some x) u \<and> c' = c))"
    unfolding Cons ..
  also have "\<dots> \<longleftrightarrow> (\<exists>u. s = u @ s' \<and> ci_eq ic u (a # w) \<and> p' = cursor_at p u \<and> c' = c)"
    (is "?A \<longleftrightarrow> ?B")
  proof
    assume ?A
    then obtain x xs u where "s = x # xs" "Canonicalize ic x = Canonicalize ic a" "xs = u @ s'"
      "ci_eq ic u w" "p' = cursor_at (Some x) u" "c' = c" by blast
    then have "s = (x # u) @ s' \<and> ci_eq ic (x # u) (a # w) \<and> p' = cursor_at p (x # u) \<and> c' = c"
      by (simp add: ci_eq_Cons)
    then show ?B by blast
  next
    assume ?B
    then obtain u where u: "s = u @ s'" "ci_eq ic u (a # w)" "p' = cursor_at p u" "c' = c" by blast
    from u(2) obtain x xs where "u = x # xs" "Canonicalize ic x = Canonicalize ic a" "ci_eq ic xs w"
      by (auto simp: ci_eq_Cons)
    with u show ?A by simp
  qed
  finally show ?case .
qed

lemma rmatch_phrase_tail_iff:
  "(p', s', c') \<in> set (rmatch True (phrase_tail w) (p, s, c)) \<longleftrightarrow>
     (\<exists>u. s = u @ s' \<and> ci_eq True u w \<and> p' = cursor_at p u \<and> c' = c \<and> at_boundary p' s')"
proof (induct w arbitrary: p s)
  case Nil
  then show ?case by auto
next
  case (Cons a w)
  have "(p', s', c') \<in> set (rmatch True (phrase_tail (a # w)) (p, s, c)) \<longleftrightarrow>
      (\<exists>x xs. s = x # xs \<and> Canonicalize True x = Canonicalize True a
          \<and> (p', s', c') \<in> set (rmatch True (phrase_tail w) (Some x, xs, c)))"
    by (cases s) auto
  also have "\<dots> \<longleftrightarrow> (\<exists>x xs. s = x # xs \<and> Canonicalize True x = Canonicalize True a
          \<and> (\<exists>u. xs = u @ s' \<and> ci_eq True u w \<and> p' = cursor_at (Some x) u \<and> c' = c \<and> at_boundary p' s'))"
    unfolding Cons ..
  also have "\<dots> \<longleftrightarrow> (\<exists>u. s = u @ s' \<and> ci_eq True u (a # w) \<and> p' = cursor_at p u \<and> c' = c \<and> at_boundary p' s')"
    (is "?A \<longleftrightarrow> ?B")
  proof
    assume ?A
    then obtain x xs u where "s = x # xs" "Canonicalize True x = Canonicalize True a" "xs = u @ s'"
      "ci_eq True u w" "p' = cursor_at (Some x) u" "c' = c" "at_boundary p' s'" by blast
    then have "s = (x # u) @ s' \<and> ci_eq True (x # u) (a # w) \<and> p' = cursor_at p (x # u) \<and> c' = c
        \<and> at_boundary p' s'"
      by (simp add: ci_eq_Cons)
    then show ?B by blast
  next
    assume ?B
    then obtain u where u: "s = u @ s'" "ci_eq True u (a # w)" "p' = cursor_at p u" "c' = c"
      "at_boundary p' s'" by blast
    from u(2) obtain x xs where "u = x # xs" "Canonicalize True x = Canonicalize True a" "ci_eq True xs w"
      by (auto simp: ci_eq_Cons)
    with u show ?A by simp
  qed
  finally show ?case .
qed

lemma rmatch_bare_iff:
  "(p', s', c') \<in> set (rmatch True (bare_rx w) (p, s, c)) \<longleftrightarrow>
     (\<exists>u. s = u @ s' \<and> ci_eq True u w \<and> p' = cursor_at p u \<and> c' = c
         \<and> at_boundary p s \<and> at_boundary p' s')"
  unfolding bare_rx_def by (auto simp: rmatch_phrase_tail_iff)

lemma parse_escaped:
  "parse_pattern (escapeRegExp w @ [bsl, CHR ''b'']) = Some (phrase_tail w)"
proof (induct w)
  case Nil
  then show ?case by (simp add: escapeRegExp_def)
next
  case (Cons a w)
  have esc: "escapeRegExp (a # w) = (if SyntaxCharacter a then [bsl, a] else [a]) @ escapeRegExp w"
    by (simp add: escapeRegExp_def)
  show ?case
  proof (cases "SyntaxCharacter a")
    case True
    then have "a \<noteq> CHR ''b''" by (auto simp: SyntaxCharacter_def bsl_def)
    with True Cons show ?thesis unfolding esc by simp
  next
    case False
    then have "a \<noteq> bsl" by (auto simp: SyntaxCharacter_def)
    with False Cons show ?thesis unfolding esc by simp
  qed
qed

lemma parse_bare: "parse_pattern (barePhraseSource phrase) = Some (bare_rx phrase)"
  unfolding barePhraseSource_def bare_rx_def using parse_escaped[of phrase] by simp

section \<open>Whole-word matching\<close>

lemma note_match_idem: "note_match phrase n (note_match phrase n occ) = note_match phrase n occ"
proof (cases "map_of occ phrase")
  case None
  then have eq: "note_match phrase n occ = AList.update phrase [n] (AList.update phrase [] occ)"
    by (simp add: note_match_def update_conv')
  show ?thesis unfolding eq by (simp add: note_match_def update_conv')
next
  case (Some lns)
  show ?thesis
  proof (cases "lns = [] \<or> last lns \<noteq> n")
    case True
    with Some have eq: "note_match phrase n occ = AList.update phrase (lns @ [n]) occ"
      by (simp add: note_match_def)
    show ?thesis unfolding eq by (simp add: note_match_def update_conv')
  next
    case False
    with Some have "note_match phrase n occ = occ" by (simp add: note_match_def)
    then show ?thesis by simp
  qed
qed

lemma bare_consuming:
  assumes "phrase \<noteq> []" and "rx_exec True (bare_rx phrase) p s = Some (k, (p', s', c))"
  shows "length s' < length s"
proof -
  from rx_exec_SomeD[OF assms(2)] obtain pre rest tl where
    s: "s = pre @ rest" and m: "rmatch True (bare_rx phrase) (cursor_at p pre, rest, None) = (p', s', c) # tl"
    by blast
  from m have "(p', s', c) \<in> set (rmatch True (bare_rx phrase) (cursor_at p pre, rest, None))" by simp
  then obtain u where "rest = u @ s'" "ci_eq True u phrase" by (auto simp: rmatch_bare_iff)
  with assms(1) ci_eq_length[of True u phrase] s show ?thesis by auto
qed

lemma ci_eq_ends:
  assumes "ci_eq True u w" and "w \<noteq> []"
  shows "u \<noteq> []" and "isWordChar (hd u) = isWordChar (hd w)" and "isWordChar (last u) = isWordChar (last w)"
proof -
  from assms ci_eq_length[OF assms(1)] show ne: "u \<noteq> []" by auto
  from assms(1) have eq: "map (Canonicalize True) u = map (Canonicalize True) w" by (simp add: ci_eq_def)
  from eq have "hd (map (Canonicalize True) u) = hd (map (Canonicalize True) w)" by simp
  with ne assms(2) have "Canonicalize True (hd u) = Canonicalize True (hd w)" by (simp add: hd_map)
  then show "isWordChar (hd u) = isWordChar (hd w)" by (rule Canonicalize_word)
  from eq have "last (map (Canonicalize True) u) = last (map (Canonicalize True) w)" by simp
  with ne assms(2) have "Canonicalize True (last u) = Canonicalize True (last w)" by (simp add: last_map)
  then show "isWordChar (last u) = isWordChar (last w)" by (rule Canonicalize_word)
qed

lemma at_boundary_before_word:
  assumes "u \<noteq> []" and "isWordChar (hd u)"
  shows "at_boundary (cursor_at None pre) (u @ s') \<longleftrightarrow> (pre = [] \<or> \<not> isWordChar (last pre))"
  using assms by (cases u) (auto simp: at_boundary_def cursor_at_def)

lemma at_boundary_after_word:
  assumes "u \<noteq> []" and "isWordChar (last u)"
  shows "at_boundary (cursor_at None (pre @ u)) s' \<longleftrightarrow> (s' = [] \<or> \<not> isWordChar (hd s'))"
  using assms by (cases s') (auto simp: at_boundary_def cursor_at_def)

lemma bare_exec_iff:
  assumes "phrase \<noteq> []" and "isWordChar (hd phrase)" and "isWordChar (last phrase)"
  shows "rx_exec True (bare_rx phrase) None line \<noteq> None \<longleftrightarrow> whole_word_occurrence phrase line"
proof
  assume "rx_exec True (bare_rx phrase) None line \<noteq> None"
  then obtain pre rest st' where l: "line = pre @ rest"
    and "st' \<in> set (rmatch True (bare_rx phrase) (cursor_at None pre, rest, None))"
    unfolding rx_exec_None_iff by (metis list.set_intros(1) neq_Nil_conv)
  then obtain u s' where r: "rest = u @ s'" and ci: "ci_eq True u phrase"
    and b1: "at_boundary (cursor_at None pre) rest"
    and b2: "at_boundary (cursor_at (cursor_at None pre) u) s'"
    by (cases st') (auto simp: rmatch_bare_iff)
  from ci_eq_ends[OF ci assms(1)] assms have u: "u \<noteq> []" "isWordChar (hd u)" "isWordChar (last u)"
    by simp_all
  from b1 r u have "pre = [] \<or> \<not> isWordChar (last pre)" by (simp add: at_boundary_before_word)
  moreover from b2 u have "s' = [] \<or> \<not> isWordChar (hd s')" by (simp add: at_boundary_after_word)
  ultimately show "whole_word_occurrence phrase line"
    unfolding whole_word_occurrence_def using l r ci by blast
next
  assume "whole_word_occurrence phrase line"
  then obtain pre mid post where l: "line = pre @ mid @ post" and ci: "ci_eq True mid phrase"
    and e1: "pre = [] \<or> \<not> isWordChar (last pre)" and e2: "post = [] \<or> \<not> isWordChar (hd post)"
    unfolding whole_word_occurrence_def by blast
  from ci_eq_ends[OF ci assms(1)] assms have u: "mid \<noteq> []" "isWordChar (hd mid)" "isWordChar (last mid)"
    by simp_all
  from e1 u have b1: "at_boundary (cursor_at None pre) (mid @ post)" by (simp add: at_boundary_before_word)
  from e2 u have b2: "at_boundary (cursor_at None (pre @ mid)) post" by (simp add: at_boundary_after_word)
  have "(cursor_at None (pre @ mid), post, None)
      \<in> set (rmatch True (bare_rx phrase) (cursor_at None pre, mid @ post, None))"
    unfolding rmatch_bare_iff using ci b1 b2 by auto
  then have "rmatch True (bare_rx phrase) (cursor_at None pre, mid @ post, None) \<noteq> []" by auto
  with l show "rx_exec True (bare_rx phrase) None line \<noteq> None"
    unfolding rx_exec_None_iff by blast
qed

text \<open>
  Where the pattern does what its comment says: for a phrase that begins and ends with a
  word constituent, the inner loop of pass 2 ends, and it notes the line for the phrase
  exactly when the cleaned line has a whole-word occurrence of the phrase, compared without
  regard to case; otherwise it leaves the record as it was. So \<open>cat\<close> is not found in
  \<open>category\<close> and is found in \<open>the cat sat\<close>.
\<close>

theorem whole_word_recorded:
  assumes "phrase \<noteq> []" and "isWordChar (hd phrase)" and "isWordChar (last phrase)"
  shows "scan_phrase cleaned n phrase occ =
     Some (Inr (if whole_word_occurrence phrase cleaned then note_match phrase n occ else occ))"
proof -
  have "exec_while (bare_rx phrase) (\<lambda>match. note_match phrase n) None cleaned occ =
      Some (if rx_exec True (bare_rx phrase) None cleaned = None then occ else note_match phrase n occ)"
    by (rule exec_while_once) (use assms(1) in \<open>auto intro: bare_consuming note_match_idem\<close>)
  with bare_exec_iff[OF assms, of cleaned] show ?thesis
    by (auto simp: scan_phrase_def parse_bare)
qed

theorem whole_word_recorded_witness:
  "scan_phrase ''the cat sat'' 7 ''cat'' [] = Some (Inr [(''cat'', [7])])
   \<and> whole_word_occurrence ''cat'' ''the cat sat''
   \<and> scan_phrase ''category'' 7 ''cat'' [] = Some (Inr [])
   \<and> \<not> whole_word_occurrence ''cat'' ''category''"
proof -
  have c: "''cat'' \<noteq> []" "isWordChar (hd ''cat'')" "isWordChar (last ''cat'')"
    by (simp_all add: isWordChar_def code_unit_def)
  have nm: "note_match ''cat'' 7 [] = [(''cat'', [7])]" by code_simp
  have r1: "scan_phrase ''the cat sat'' 7 ''cat'' [] = Some (Inr [(''cat'', [7])])" by code_simp
  have r2: "scan_phrase ''category'' 7 ''cat'' [] = Some (Inr [])" by code_simp
  from whole_word_recorded[OF c, of "''the cat sat''" 7 "[]"] r1 nm
  have w1: "whole_word_occurrence ''cat'' ''the cat sat''" by (auto split: if_splits)
  from whole_word_recorded[OF c, of "''category''" 7 "[]"] r2 nm
  have w2: "\<not> whole_word_occurrence ''cat'' ''category''" by (auto split: if_splits)
  from r1 r2 w1 w2 show ?thesis by simp
qed

lemma ci_eq_cpp:
  assumes "ci_eq True mid ''C++''"
  obtains x where "mid = [x, CHR ''+'', CHR ''+'']"
proof -
  have plus: "Canonicalize True y = Canonicalize True CHR ''+'' \<longleftrightarrow> y = CHR ''+''" for y
    by (rule Canonicalize_plain) (simp add: code_unit_def)
  from assms that show ?thesis by (auto simp: ci_eq_Cons plus)
qed

lemma cpp_not_whole_word_inside: "\<not> whole_word_occurrence ''C++'' ''use C++y now''"
proof
  assume "whole_word_occurrence ''C++'' ''use C++y now''"
  then obtain pre mid post where l: "''use C++y now'' = pre @ mid @ post" and ci: "ci_eq True mid ''C++''"
    and e: "post = [] \<or> \<not> isWordChar (hd post)"
    unfolding whole_word_occurrence_def by blast
  from ci obtain x where "mid = [x, CHR ''+'', CHR ''+'']" by (rule ci_eq_cpp)
  with l have "''use C++y now'' = pre @ x # CHR ''+'' # CHR ''+'' # post" by simp
  then have "post = ''y now''" by (auto simp: Cons_eq_append_conv)
  with e show False by (simp add: isWordChar_def code_unit_def)
qed

text \<open>
  C3: the scanner is to record a phrase exactly where it occurs as a whole word, and the
  comment on the pattern says that it ensures a whole-word match. For a phrase that ends in
  a character that is not a word constituent it does not: \<open>\b\<close> after \<open>C++\<close> asks for a word
  constituent next. The phrase between two blanks is a whole-word occurrence and is not
  recorded, so the record of the document stays empty; the phrase inside \<open>C++y\<close> is no
  whole-word occurrence and is recorded.
\<close>

theorem whole_word_missed:
  "whole_word_occurrence ''C++'' ''use C++ now''
   \<and> scan_phrase ''use C++ now'' 2 ''C++'' [] = Some (Inr [])
   \<and> \<not> whole_word_occurrence ''C++'' ''use C++y now''
   \<and> scan_phrase ''use C++y now'' 2 ''C++'' [] = Some (Inr [(''C++'', [2])])
   \<and> map (cleanedLine) [''@[static#C++] is wrapped'', ''use C++ now''] = ['' is wrapped'', ''use C++ now'']
   \<and> map_option fst (findUnwrappedPhraseOccurrences cpp_env ''notes.txt'' fresh_proc) = Some (Return [])"
proof -
  have "''use C++ now'' = ''use '' @ ''C++'' @ '' now'' \<and> ci_eq True ''C++'' ''C++''
      \<and> (''use '' = [] \<or> \<not> isWordChar (last ''use '')) \<and> ('' now'' = [] \<or> \<not> isWordChar (hd '' now''))"
    by (simp add: ci_eq_def isWordChar_def code_unit_def)
  then have "whole_word_occurrence ''C++'' ''use C++ now''"
    unfolding whole_word_occurrence_def by blast
  moreover have "scan_phrase ''use C++ now'' 2 ''C++'' [] = Some (Inr [])" by code_simp
  moreover note cpp_not_whole_word_inside
  moreover have "scan_phrase ''use C++y now'' 2 ''C++'' [] = Some (Inr [(''C++'', [2])])" by code_simp
  moreover have "map (cleanedLine) [''@[static#C++] is wrapped'', ''use C++ now''] = ['' is wrapped'', ''use C++ now'']"
    by code_simp
  moreover have "map_option fst (findUnwrappedPhraseOccurrences cpp_env ''notes.txt'' fresh_proc) = Some (Return [])"
    by code_simp
  ultimately show ?thesis by simp
qed

section \<open>Cleaning a line\<close>

lemma ci_eq_False: "ci_eq False u w \<longleftrightarrow> u = w"
proof -
  have "inj (Canonicalize False)" by (rule injI) (simp add: Canonicalize_False)
  then show ?thesis unfolding ci_eq_def by (simp add: inj_map_eq_map)
qed

lemma rmatch_lazy_plus_iff:
  "(p', s', c') \<in> set (rmatch ic (LazyPlus a) (p, s, c)) \<longleftrightarrow>
     (\<exists>u. u \<noteq> [] \<and> s = u @ s' \<and> (\<forall>x\<in>set u. atom_ok ic a x) \<and> p' = cursor_at p u \<and> c' = c)"
  (is "?L \<longleftrightarrow> ?R")
proof
  assume ?L
  then obtain mid where "mid \<in> set (step_atom ic a (p, s, c))" "(p', s', c') \<in> set (lazy_star ic a mid)"
    by auto
  then obtain x xs where s: "s = x # xs" "atom_ok ic a x"
    "(p', s', c') \<in> set (lazy_star ic a (Some x, xs, c))"
    by (auto simp only: step_atom_iff)
  then obtain u where "xs = u @ s'" "\<forall>x\<in>set u. atom_ok ic a x" "p' = cursor_at (Some x) u" "c' = c"
    by (auto simp only: lazy_star_iff)
  with s have "x # u \<noteq> [] \<and> s = (x # u) @ s' \<and> (\<forall>y\<in>set (x # u). atom_ok ic a y)
      \<and> p' = cursor_at p (x # u) \<and> c' = c" by simp
  then show ?R by blast
next
  assume ?R
  then obtain u where u: "u \<noteq> []" "s = u @ s'" "\<forall>x\<in>set u. atom_ok ic a x" "p' = cursor_at p u" "c' = c"
    by blast
  then obtain x xs where x: "u = x # xs" by (cases u) auto
  with u have "(Some x, xs @ s', c) \<in> set (step_atom ic a (p, s, c))" by simp
  moreover from u x have "(p', s', c') \<in> set (lazy_star ic a (Some x, xs @ s', c))"
    unfolding lazy_star_iff by auto
  ultimately show ?L by auto
qed

lemma rmatch_Seq_iff:
  "st' \<in> set (rmatch ic (Seq a b) st) \<longleftrightarrow> (\<exists>mid\<in>set (rmatch ic a st). st' \<in> set (rmatch ic b mid))"
  by simp

lemma tag_match_iff:
  "(p', s', c') \<in> set (rmatch False HTML_TAG_PATTERN (p, s, c)) \<longleftrightarrow>
     (\<exists>u. s = CHR ''<'' # u @ CHR ''>'' # s' \<and> u \<noteq> [] \<and> CHR ''>'' \<notin> set u \<and> p' = Some CHR ''>'' \<and> c' = c)"
  (is "?L \<longleftrightarrow> ?R")
proof
  assume ?L
  then obtain m1 m2 where
    a: "m1 \<in> set (rmatch False (lits ''<'') (p, s, c))"
    and b: "m2 \<in> set (rmatch False (LazyPlus (NotCh CHR ''>'')) m1)"
    and d: "(p', s', c') \<in> set (rmatch False (lits ''>'') m2)"
    unfolding HTML_TAG_PATTERN_def rmatch_Seq_iff by blast
  obtain p1 s1 c1 where m1: "m1 = (p1, s1, c1)" by (cases m1)
  obtain p2 s2 c2 where m2: "m2 = (p2, s2, c2)" by (cases m2)
  from a have s: "s = ''<'' @ s1" "c1 = c" unfolding m1 rmatch_lits_iff by (auto simp: ci_eq_False)
  from b obtain u where u: "u \<noteq> []" "s1 = u @ s2" "\<forall>x\<in>set u. atom_ok False (NotCh CHR ''>'') x" "c2 = c1"
    unfolding m1 m2 rmatch_lazy_plus_iff by blast
  from d have e: "s2 = ''>'' @ s'" "p' = cursor_at p2 ''>''" "c' = c2"
    unfolding m2 rmatch_lits_iff by (auto simp: ci_eq_False)
  from u(3) have "CHR ''>'' \<notin> set u" by (auto simp: Canonicalize_False)
  with s u e show ?R by (auto simp: cursor_at_def)
next
  assume ?R
  then obtain u where u: "s = CHR ''<'' # u @ CHR ''>'' # s'" "u \<noteq> []" "CHR ''>'' \<notin> set u"
    "p' = Some CHR ''>''" "c' = c" by blast
  have a: "(Some CHR ''<'', u @ CHR ''>'' # s', c) \<in> set (rmatch False (lits ''<'') (p, s, c))"
    unfolding rmatch_lits_iff using u(1) by (auto simp: ci_eq_False cursor_at_def)
  have b: "(cursor_at (Some CHR ''<'') u, CHR ''>'' # s', c)
      \<in> set (rmatch False (LazyPlus (NotCh CHR ''>'')) (Some CHR ''<'', u @ CHR ''>'' # s', c))"
    unfolding rmatch_lazy_plus_iff using u(2,3) by (auto simp: Canonicalize_False)
  have d: "(p', s', c') \<in> set (rmatch False (lits ''>'') (cursor_at (Some CHR ''<'') u, CHR ''>'' # s', c))"
    unfolding rmatch_lits_iff using u(4,5) by (auto simp: ci_eq_False cursor_at_def)
  from a b d show ?L unfolding HTML_TAG_PATTERN_def rmatch_Seq_iff by blast
qed

lemma has_tag_span_alt:
  "has_tag_span line \<longleftrightarrow>
     (\<exists>pre y ys. line = pre @ CHR ''<'' # y # ys \<and> y \<noteq> CHR ''>'' \<and> CHR ''>'' \<in> set ys)"
  (is "?L \<longleftrightarrow> ?R")
proof
  assume ?L
  then obtain pre u post where l: "line = pre @ [CHR ''<''] @ u @ [CHR ''>''] @ post" "u \<noteq> []"
    "CHR ''>'' \<notin> set u" unfolding has_tag_span_def by blast
  then obtain y us where "u = y # us" by (cases u) auto
  with l have "line = pre @ CHR ''<'' # y # (us @ CHR ''>'' # post) \<and> y \<noteq> CHR ''>''
      \<and> CHR ''>'' \<in> set (us @ CHR ''>'' # post)" by auto
  then show ?R by blast
next
  assume ?R
  then obtain pre y ys where l: "line = pre @ CHR ''<'' # y # ys" "y \<noteq> CHR ''>''" "CHR ''>'' \<in> set ys"
    by blast
  from split_list_first[OF l(3)] obtain q post where "ys = q @ CHR ''>'' # post" "CHR ''>'' \<notin> set q"
    by blast
  with l have "line = pre @ [CHR ''<''] @ (y # q) @ [CHR ''>''] @ post \<and> y # q \<noteq> []
      \<and> CHR ''>'' \<notin> set (y # q)" by simp
  then show ?L unfolding has_tag_span_def by blast
qed

lemma tag_exec_iff: "rx_exec False HTML_TAG_PATTERN p line \<noteq> None \<longleftrightarrow> has_tag_span line"
proof
  assume "rx_exec False HTML_TAG_PATTERN p line \<noteq> None"
  then obtain pre rest st' where l: "line = pre @ rest"
    and "st' \<in> set (rmatch False HTML_TAG_PATTERN (cursor_at p pre, rest, None))"
    unfolding rx_exec_None_iff by (metis list.set_intros(1) neq_Nil_conv)
  then obtain u s' where "rest = CHR ''<'' # u @ CHR ''>'' # s'" "u \<noteq> []" "CHR ''>'' \<notin> set u"
    by (cases st') (auto simp: tag_match_iff)
  with l have "line = pre @ [CHR ''<''] @ u @ [CHR ''>''] @ s' \<and> u \<noteq> [] \<and> CHR ''>'' \<notin> set u" by simp
  then show "has_tag_span line" unfolding has_tag_span_def by blast
next
  assume "has_tag_span line"
  then obtain pre u post where l: "line = pre @ [CHR ''<''] @ u @ [CHR ''>''] @ post" "u \<noteq> []"
    "CHR ''>'' \<notin> set u" unfolding has_tag_span_def by blast
  then have "(Some CHR ''>'', post, None)
      \<in> set (rmatch False HTML_TAG_PATTERN (cursor_at p pre, CHR ''<'' # u @ CHR ''>'' # post, None))"
    unfolding tag_match_iff by blast
  then have "rmatch False HTML_TAG_PATTERN (cursor_at p pre, CHR ''<'' # u @ CHR ''>'' # post, None) \<noteq> []"
    by auto
  moreover from l have "line = pre @ (CHR ''<'' # u @ CHR ''>'' # post)" by simp
  ultimately show "rx_exec False HTML_TAG_PATTERN p line \<noteq> None"
    unfolding rx_exec_None_iff by blast
qed

lemma replace_all_length:
  assumes long: "\<And>p s k p' s' c. rx_exec ic re p s = Some (k, (p', s', c))
      \<Longrightarrow> length rep + length s' \<le> length s - k"
  shows "length (replace_all ic re rep p s) \<le> length s"
proof (induct s arbitrary: p rule: length_induct)
  case (1 s)
  show ?case
  proof (cases "rx_exec ic re p s")
    case None
    then show ?thesis by (subst replace_all.simps) simp
  next
    case (Some a)
    obtain k p' s' c where a: "a = (k, p', s', c)" by (cases a) auto
    from Some a have ex: "rx_exec ic re p s = Some (k, (p', s', c))" by simp
    from long[OF ex] have len: "length rep + length s' \<le> length s - k" .
    from rx_exec_suffix[OF ex] obtain m where m: "drop k s = m @ s'" "k \<le> length s" by blast
    show ?thesis
    proof (cases "length s' < length s - k")
      case True
      then have "length s' < length s" by simp
      with 1 have "length (replace_all ic re rep p' s') \<le> length s'" by blast
      with True ex len m show ?thesis by (subst replace_all.simps) simp
    next
      case False
      with len have "length rep = 0" by linarith
      then have rep: "rep = []" by simp
      show ?thesis
      proof (cases "drop k s")
        case Nil
        with False ex rep show ?thesis by (subst replace_all.simps) simp
      next
        case (Cons x xs)
        then have "length xs < length s" using m(2)
          by (metis Suc_le_lessD diff_le_self length_Cons length_drop less_imp_le_nat)
        with 1 have "length (replace_all ic re rep (Some x) xs) \<le> length xs" by blast
        moreover from Cons have "length s - k = Suc (length xs)" by (metis length_Cons length_drop)
        ultimately show ?thesis using False ex rep Cons m(2) by (subst replace_all.simps) simp
      qed
    qed
  qed
qed

lemma exec_match_text:
  assumes "rx_exec ic re p s = Some (k, (p', s', c))"
  obtains pre m where "s = pre @ m @ s'" and "k = length pre"
    and "(p', s', c) \<in> set (rmatch ic re (cursor_at p pre, m @ s', None))"
proof -
  from rx_exec_SomeD[OF assms] obtain pre rest tl where
    s: "s = pre @ rest" "k = length pre" and r: "rmatch ic re (cursor_at p pre, rest, None) = (p', s', c) # tl"
    by blast
  from r have in_r: "(p', s', c) \<in> set (rmatch ic re (cursor_at p pre, rest, None))" by simp
  from rmatch_advances[OF in_r] obtain m where "rest = m @ s'" by (rule advancesE)
  with s in_r that show ?thesis by blast
qed

text \<open>
  C9: the cleaned line is never longer than the raw line. An annotation span is replaced by
  nothing, and a tag span, which has at least three characters, by one blank.
\<close>

theorem cleaned_line_no_longer: "length (cleanedLine line) \<le> length line"
proof -
  have "length (replace_all True WRAPPED_PATTERN_REMOVAL_PATTERN [] None line) \<le> length line"
  proof (rule replace_all_length)
    fix p s k p' s' c
    assume "rx_exec True WRAPPED_PATTERN_REMOVAL_PATTERN p s = Some (k, p', s', c)"
    from rx_exec_suffix[OF this] obtain m where "drop k s = m @ s'" "k \<le> length s" by blast
    then have "length s - k = length m + length s'" by (metis length_append length_drop)
    then show "length ([]::string) + length s' \<le> length s - k" by simp
  qed
  moreover have "length (replace_all False HTML_TAG_PATTERN '' '' None s) \<le> length s" for s
  proof (rule replace_all_length)
    fix p s k p' s' c
    assume "rx_exec False HTML_TAG_PATTERN p s = Some (k, p', s', c)"
    then obtain pre m where s: "s = pre @ m @ s'" "k = length pre"
      and "(p', s', c) \<in> set (rmatch False HTML_TAG_PATTERN (cursor_at p pre, m @ s', None))"
      by (rule exec_match_text)
    then obtain u where "m @ s' = CHR ''<'' # u @ CHR ''>'' # s'" by (auto simp: tag_match_iff)
    then have "length m + length s' = Suc (Suc (length u + length s'))"
      by (metis length_append length_Cons add_Suc_right)
    with s show "length '' '' + length s' \<le> length s - k" by simp
  qed
  ultimately show ?thesis unfolding cleanedLine_def by (meson le_trans)
qed

section \<open>What the annotation patterns match\<close>

lemma ci_eq_plain:
  assumes "\<forall>c\<in>set w. code_unit c < 65 \<or> (90 < code_unit c \<and> code_unit c < 97)
      \<or> (122 < code_unit c \<and> code_unit c < 128)"
  shows "ci_eq True u w \<longleftrightarrow> u = w"
  using assms
proof (induct w arbitrary: u)
  case Nil
  then show ?case by simp
next
  case (Cons a w)
  then have "Canonicalize True x = Canonicalize True a \<longleftrightarrow> x = a" for x
    by (intro Canonicalize_plain) simp
  with Cons show ?case by (auto simp: ci_eq_Cons)
qed

lemma ci_eq_open [simp]: "ci_eq True u ''@['' \<longleftrightarrow> u = ''@[''"
  by (rule ci_eq_plain) (simp add: code_unit_def)

lemma ci_eq_hash [simp]: "ci_eq True u ''#'' \<longleftrightarrow> u = ''#''"
  by (rule ci_eq_plain) (simp add: code_unit_def)

lemma ci_eq_close [simp]: "ci_eq True u '']'' \<longleftrightarrow> u = '']''"
  by (rule ci_eq_plain) (simp add: code_unit_def)

lemma annotation_head_iff:
  "(p1, s1, c1) \<in> set (rmatch True annotation_head (p, s, c)) \<longleftrightarrow>
     (\<exists>tag. s = ''@['' @ tag @ ''#'' @ s1
        \<and> (ci_eq True tag ''static'' \<or> ci_eq True tag ''static-header'')
        \<and> p1 = Some CHR ''#'' \<and> c1 = c)"
  (is "?L \<longleftrightarrow> ?R")
proof
  assume ?L
  then obtain a b where
    a: "a \<in> set (rmatch True (lits ''@['') (p, s, c))"
    and b: "b \<in> set (rmatch True (Alt (lits ''static'') (lits ''static-header'')) a)"
    and d: "(p1, s1, c1) \<in> set (rmatch True (lits ''#'') b)"
    unfolding annotation_head_def rmatch_Seq_iff by blast
  obtain pa sa ca where a': "a = (pa, sa, ca)" by (cases a)
  obtain pb sb cb where b': "b = (pb, sb, cb)" by (cases b)
  from a have 1: "s = ''@['' @ sa" "ca = c" unfolding a' rmatch_lits_iff by auto
  from b have "b \<in> set (rmatch True (lits ''static'') a) \<or> b \<in> set (rmatch True (lits ''static-header'') a)"
    by simp
  then obtain tag where 2: "sa = tag @ sb" "ci_eq True tag ''static'' \<or> ci_eq True tag ''static-header''"
    "cb = ca" unfolding a' b' rmatch_lits_iff by blast
  from d have 3: "sb = ''#'' @ s1" "p1 = Some CHR ''#''" "c1 = cb"
    unfolding b' rmatch_lits_iff by (auto simp: cursor_at_def)
  from 1 2 3 show ?R by (auto simp: cursor_at_def)
next
  assume ?R
  then obtain tag where t: "s = ''@['' @ tag @ ''#'' @ s1"
    "ci_eq True tag ''static'' \<or> ci_eq True tag ''static-header''" "p1 = Some CHR ''#''" "c1 = c"
    by blast
  let ?a = "(cursor_at p ''@['', tag @ ''#'' @ s1, c)"
  let ?b = "(cursor_at (cursor_at p ''@['') tag, ''#'' @ s1, c)"
  have a: "?a \<in> set (rmatch True (lits ''@['') (p, s, c))"
    unfolding rmatch_lits_iff using t(1) by auto
  have "?b \<in> set (rmatch True (lits ''static'') ?a) \<or> ?b \<in> set (rmatch True (lits ''static-header'') ?a)"
    unfolding rmatch_lits_iff using t(2) by auto
  then have b: "?b \<in> set (rmatch True (Alt (lits ''static'') (lits ''static-header'')) ?a)" by simp
  have d: "(p1, s1, c1) \<in> set (rmatch True (lits ''#'') ?b)"
    unfolding rmatch_lits_iff using t(3,4) by (auto simp: cursor_at_def)
  from a b d show ?L unfolding annotation_head_def rmatch_Seq_iff by blast
qed

lemma payload_close_iff:
  "(p', s', c') \<in> set (rmatch True (Seq (LazyStar Dot) (lits '']'')) (p1, s1, c1)) \<longleftrightarrow>
     (\<exists>payload. s1 = payload @ '']'' @ s' \<and> (\<forall>x\<in>set payload. \<not> isLineTerminator x)
        \<and> p' = Some CHR '']'' \<and> c' = c1)"
  (is "?L \<longleftrightarrow> ?R")
proof
  assume ?L
  then obtain b where b: "b \<in> set (lazy_star True Dot (p1, s1, c1))"
    and d: "(p', s', c') \<in> set (rmatch True (lits '']'') b)"
    unfolding rmatch_Seq_iff by auto
  from b obtain payload sb where 1: "s1 = payload @ sb" "\<forall>x\<in>set payload. atom_ok True Dot x"
    "b = (cursor_at p1 payload, sb, c1)" unfolding lazy_star_iff by blast
  from d have 2: "sb = '']'' @ s'" "p' = Some CHR '']''" "c' = c1"
    unfolding 1(3) rmatch_lits_iff by (auto simp: cursor_at_def)
  from 1 2 show ?R by (auto simp: cursor_at_def)
next
  assume ?R
  then obtain payload where t: "s1 = payload @ '']'' @ s'" "\<forall>x\<in>set payload. \<not> isLineTerminator x"
    "p' = Some CHR '']''" "c' = c1" by blast
  let ?b = "(cursor_at p1 payload, '']'' @ s', c1)"
  have "?b \<in> set (lazy_star True Dot (p1, s1, c1))" unfolding lazy_star_iff using t(1,2) by auto
  then have b: "?b \<in> set (rmatch True (LazyStar Dot) (p1, s1, c1))" by simp
  have d: "(p', s', c') \<in> set (rmatch True (lits '']'') ?b)"
    unfolding rmatch_lits_iff using t(3,4) by (auto simp: cursor_at_def)
  from b d show ?L unfolding rmatch_Seq_iff by blast
qed

lemma payload_group_close_iff:
  "(p', s', c') \<in> set (rmatch True (Seq (Grp (LazyStar Dot)) (lits '']'')) (p1, s1, c1)) \<longleftrightarrow>
     (\<exists>payload. s1 = payload @ '']'' @ s' \<and> (\<forall>x\<in>set payload. \<not> isLineTerminator x)
        \<and> p' = Some CHR '']'' \<and> c' = Some payload)"
  (is "?L \<longleftrightarrow> ?R")
proof
  assume ?L
  then obtain b where b: "b \<in> set (rmatch True (Grp (LazyStar Dot)) (p1, s1, c1))"
    and d: "(p', s', c') \<in> set (rmatch True (lits '']'') b)"
    unfolding rmatch_Seq_iff by blast
  from b obtain pb sb cb where in_star: "(pb, sb, cb) \<in> set (lazy_star True Dot (p1, s1, c1))"
    and b': "b = (pb, sb, Some (take (length s1 - length sb) s1))" by auto
  from in_star obtain payload where 1: "s1 = payload @ sb" "\<forall>x\<in>set payload. atom_ok True Dot x"
    "pb = cursor_at p1 payload" unfolding lazy_star_iff by blast
  from 1(1) have cap: "take (length s1 - length sb) s1 = payload" by simp
  from d have 2: "sb = '']'' @ s'" "p' = Some CHR '']''" "c' = Some payload"
    unfolding b' cap rmatch_lits_iff by (auto simp: cursor_at_def)
  from 1 2 show ?R by (auto simp: cursor_at_def)
next
  assume ?R
  then obtain payload where t: "s1 = payload @ '']'' @ s'" "\<forall>x\<in>set payload. \<not> isLineTerminator x"
    "p' = Some CHR '']''" "c' = Some payload" by blast
  let ?sb = "'']'' @ s'"
  have "(cursor_at p1 payload, ?sb, c1) \<in> set (lazy_star True Dot (p1, s1, c1))"
    unfolding lazy_star_iff using t(1,2) by auto
  moreover have "take (length s1 - length ?sb) s1 = payload" using t(1) by simp
  ultimately have b: "(cursor_at p1 payload, ?sb, Some payload)
      \<in> set (rmatch True (Grp (LazyStar Dot)) (p1, s1, c1))" by force
  have d: "(p', s', c') \<in> set (rmatch True (lits '']'') (cursor_at p1 payload, ?sb, Some payload))"
    unfolding rmatch_lits_iff using t(3,4) by (auto simp: cursor_at_def)
  from b d show ?L unfolding rmatch_Seq_iff by blast
qed

lemma removal_match_iff:
  "(p', s', c') \<in> set (rmatch True WRAPPED_PATTERN_REMOVAL_PATTERN (p, s, c)) \<longleftrightarrow>
     (\<exists>w. s = w @ s' \<and> is_annotation w \<and> p' = Some CHR '']'' \<and> c' = c)"
  (is "?L \<longleftrightarrow> ?R")
proof
  assume ?L
  then obtain a where a: "a \<in> set (rmatch True annotation_head (p, s, c))"
    and b: "(p', s', c') \<in> set (rmatch True (Seq (LazyStar Dot) (lits '']'')) a)"
    unfolding WRAPPED_PATTERN_REMOVAL_PATTERN_def rmatch_Seq_iff[of _ _ annotation_head] by blast
  obtain pa sa ca where a': "a = (pa, sa, ca)" by (cases a)
  from a obtain tag where 1: "s = ''@['' @ tag @ ''#'' @ sa"
    "ci_eq True tag ''static'' \<or> ci_eq True tag ''static-header''" "ca = c"
    unfolding a' annotation_head_iff by blast
  from b obtain payload where 2: "sa = payload @ '']'' @ s'" "\<forall>x\<in>set payload. \<not> isLineTerminator x"
    "p' = Some CHR '']''" "c' = ca" unfolding a' payload_close_iff by blast
  from 1 2 have "is_annotation (''@['' @ tag @ ''#'' @ payload @ '']'')"
    unfolding is_annotation_def by blast
  moreover from 1 2 have "s = (''@['' @ tag @ ''#'' @ payload @ '']'') @ s'" by simp
  ultimately show ?R using 1 2 by blast
next
  assume ?R
  then obtain w where w: "s = w @ s'" "is_annotation w" "p' = Some CHR '']''" "c' = c" by blast
  from w(2) obtain tag payload where t: "w = ''@['' @ tag @ ''#'' @ payload @ '']''"
    "ci_eq True tag ''static'' \<or> ci_eq True tag ''static-header''"
    "\<forall>x\<in>set payload. \<not> isLineTerminator x" unfolding is_annotation_def by blast
  let ?sa = "payload @ '']'' @ s'"
  have a: "(Some CHR ''#'', ?sa, c) \<in> set (rmatch True annotation_head (p, s, c))"
    unfolding annotation_head_iff using w(1) t(1,2) by auto
  have b: "(p', s', c') \<in> set (rmatch True (Seq (LazyStar Dot) (lits '']'')) (Some CHR ''#'', ?sa, c))"
    unfolding payload_close_iff using t(3) w(3,4) by blast
  from a b show ?L
    unfolding WRAPPED_PATTERN_REMOVAL_PATTERN_def rmatch_Seq_iff[of _ _ annotation_head] by blast
qed

lemma extraction_match_iff:
  "(p', s', c') \<in> set (rmatch True WRAPPED_PHRASE_EXTRACTION_PATTERN (p, s, c)) \<longleftrightarrow>
     (\<exists>tag payload. s = ''@['' @ tag @ ''#'' @ payload @ '']'' @ s'
        \<and> (ci_eq True tag ''static'' \<or> ci_eq True tag ''static-header'')
        \<and> (\<forall>x\<in>set payload. \<not> isLineTerminator x)
        \<and> p' = Some CHR '']'' \<and> c' = Some payload)"
  (is "?L \<longleftrightarrow> ?R")
proof
  assume ?L
  then obtain a where a: "a \<in> set (rmatch True annotation_head (p, s, c))"
    and b: "(p', s', c') \<in> set (rmatch True (Seq (Grp (LazyStar Dot)) (lits '']'')) a)"
    unfolding WRAPPED_PHRASE_EXTRACTION_PATTERN_def rmatch_Seq_iff[of _ _ annotation_head] by blast
  obtain pa sa ca where a': "a = (pa, sa, ca)" by (cases a)
  from a obtain tag where 1: "s = ''@['' @ tag @ ''#'' @ sa"
    "ci_eq True tag ''static'' \<or> ci_eq True tag ''static-header''"
    unfolding a' annotation_head_iff by blast
  from b obtain payload where 2: "sa = payload @ '']'' @ s'" "\<forall>x\<in>set payload. \<not> isLineTerminator x"
    "p' = Some CHR '']''" "c' = Some payload" unfolding a' payload_group_close_iff by blast
  from 1 2 show ?R by blast
next
  assume ?R
  then obtain tag payload where t: "s = ''@['' @ tag @ ''#'' @ payload @ '']'' @ s'"
    "ci_eq True tag ''static'' \<or> ci_eq True tag ''static-header''"
    "\<forall>x\<in>set payload. \<not> isLineTerminator x" "p' = Some CHR '']''" "c' = Some payload" by blast
  let ?sa = "payload @ '']'' @ s'"
  have a: "(Some CHR ''#'', ?sa, c) \<in> set (rmatch True annotation_head (p, s, c))"
    unfolding annotation_head_iff using t(1,2) by auto
  have b: "(p', s', c') \<in> set (rmatch True (Seq (Grp (LazyStar Dot)) (lits '']'')) (Some CHR ''#'', ?sa, c))"
    unfolding payload_group_close_iff using t(3,4,5) by blast
  from a b show ?L
    unfolding WRAPPED_PHRASE_EXTRACTION_PATTERN_def rmatch_Seq_iff[of _ _ annotation_head] by blast
qed

lemma extraction_exec_iff:
  "rx_exec True WRAPPED_PHRASE_EXTRACTION_PATTERN p line \<noteq> None \<longleftrightarrow> has_annotation line"
proof
  assume "rx_exec True WRAPPED_PHRASE_EXTRACTION_PATTERN p line \<noteq> None"
  then obtain pre rest st' where l: "line = pre @ rest"
    and "st' \<in> set (rmatch True WRAPPED_PHRASE_EXTRACTION_PATTERN (cursor_at p pre, rest, None))"
    unfolding rx_exec_None_iff by (metis list.set_intros(1) neq_Nil_conv)
  then obtain tag payload s' where t: "rest = ''@['' @ tag @ ''#'' @ payload @ '']'' @ s'"
    "ci_eq True tag ''static'' \<or> ci_eq True tag ''static-header''"
    "\<forall>x\<in>set payload. \<not> isLineTerminator x"
    by (cases st') (auto simp only: extraction_match_iff)
  then have "is_annotation (''@['' @ tag @ ''#'' @ payload @ '']'')" unfolding is_annotation_def by blast
  moreover from l t have "line = pre @ (''@['' @ tag @ ''#'' @ payload @ '']'') @ s'" by simp
  ultimately show "has_annotation line" unfolding has_annotation_def by blast
next
  assume "has_annotation line"
  then obtain pre w post where l: "line = pre @ w @ post" and "is_annotation w"
    unfolding has_annotation_def by blast
  then obtain tag payload where t: "w = ''@['' @ tag @ ''#'' @ payload @ '']''"
    "ci_eq True tag ''static'' \<or> ci_eq True tag ''static-header''"
    "\<forall>x\<in>set payload. \<not> isLineTerminator x" unfolding is_annotation_def by blast
  from t have "(Some CHR '']'', post, Some payload)
      \<in> set (rmatch True WRAPPED_PHRASE_EXTRACTION_PATTERN (cursor_at p pre, w @ post, None))"
    unfolding extraction_match_iff by auto
  then have "rmatch True WRAPPED_PHRASE_EXTRACTION_PATTERN (cursor_at p pre, w @ post, None) \<noteq> []"
    by auto
  with l show "rx_exec True WRAPPED_PHRASE_EXTRACTION_PATTERN p line \<noteq> None"
    unfolding rx_exec_None_iff by blast
qed

section \<open>The two versions of the scanner\<close>

lemma has_tag_span_insert:
  assumes tag: "has_tag_span (a @ b)" and m: "m = z # zs" "z \<noteq> CHR ''>''"
  shows "has_tag_span (a @ m @ b)"
proof -
  from tag obtain pre y ys where ab: "a @ b = pre @ CHR ''<'' # y # ys" and y: "y \<noteq> CHR ''>''"
    and gt: "CHR ''>'' \<in> set ys" unfolding has_tag_span_alt by blast
  from ab obtain us where us: "(a = pre @ us \<and> us @ b = CHR ''<'' # y # ys)
      \<or> (a @ us = pre \<and> b = us @ CHR ''<'' # y # ys)"
    unfolding append_eq_append_conv2 by blast
  have "(\<exists>q. pre = a @ q \<and> b = q @ CHR ''<'' # y # ys)
      \<or> (\<exists>q. a = pre @ q \<and> q \<noteq> [] \<and> q @ b = CHR ''<'' # y # ys)"
  proof (cases "us = []")
    case True
    with us have "pre = a @ [] \<and> b = [] @ CHR ''<'' # y # ys" by auto
    then show ?thesis by blast
  next
    case False
    with us show ?thesis by blast
  qed
  then consider q where "pre = a @ q" "b = q @ CHR ''<'' # y # ys"
    | q where "a = pre @ q" "q \<noteq> []" "q @ b = CHR ''<'' # y # ys"
    by blast
  then show ?thesis
  proof cases
    case 1
    then have "a @ m @ b = (a @ m @ q) @ CHR ''<'' # y # ys" by simp
    with y gt show ?thesis unfolding has_tag_span_alt by blast
  next
    case 2
    from 2(2,3) obtain q' where q: "q = CHR ''<'' # q'" "q' @ b = y # ys"
      by (cases q) auto
    show ?thesis
    proof (cases q')
      case Nil
      with q 2 m have "a @ m @ b = pre @ CHR ''<'' # z # (zs @ b)" "b = y # ys" by simp_all
      with m(2) gt have "a @ m @ b = pre @ CHR ''<'' # z # (zs @ b) \<and> z \<noteq> CHR ''>''
          \<and> CHR ''>'' \<in> set (zs @ b)" by simp
      then show ?thesis unfolding has_tag_span_alt by blast
    next
      case (Cons y' q'')
      with q have "y' = y" "ys = q'' @ b" by simp_all
      with q 2 Cons have "a @ m @ b = pre @ CHR ''<'' # y # (q'' @ m @ b)" by simp
      moreover from gt \<open>ys = q'' @ b\<close> have "CHR ''>'' \<in> set (q'' @ m @ b)" by auto
      ultimately show ?thesis using y unfolding has_tag_span_alt by blast
    qed
  qed
qed

lemma is_annotation_head:
  assumes "is_annotation w"
  obtains zs where "w = CHR ''@'' # zs"
  using assms unfolding is_annotation_def by auto

lemma removal_exec_text:
  assumes "rx_exec True WRAPPED_PATTERN_REMOVAL_PATTERN p s = Some (k, (p', s', c))"
  obtains pre w where "s = pre @ w @ s'" and "k = length pre" and "is_annotation w"
proof -
  from rx_exec_SomeD[OF assms] obtain pre rest tl where
    s: "s = pre @ rest" "k = length pre"
    and r: "rmatch True WRAPPED_PATTERN_REMOVAL_PATTERN (cursor_at p pre, rest, None) = (p', s', c) # tl"
    by blast
  from r have "(p', s', c) \<in> set (rmatch True WRAPPED_PATTERN_REMOVAL_PATTERN (cursor_at p pre, rest, None))"
    by simp
  then obtain w where "rest = w @ s'" "is_annotation w" unfolding removal_match_iff by blast
  with s that show ?thesis by blast
qed

lemma removal_unfold:
  assumes "rx_exec True WRAPPED_PATTERN_REMOVAL_PATTERN p s = Some (k, (p', s', c))"
    and "s = pre @ w @ s'" and "k = length pre" and "w \<noteq> []"
  shows "replace_all True WRAPPED_PATTERN_REMOVAL_PATTERN [] p s =
     pre @ replace_all True WRAPPED_PATTERN_REMOVAL_PATTERN [] p' s'"
proof -
  from assms(2,3,4) have "length s' < length s - k" by (cases w) auto
  with assms show ?thesis by (subst replace_all.simps) simp
qed

lemma removal_keeps_tag_free:
  "\<not> has_tag_span (a @ s) \<Longrightarrow>
     \<not> has_tag_span (a @ replace_all True WRAPPED_PATTERN_REMOVAL_PATTERN [] p s)"
proof (induct s arbitrary: a p rule: length_induct)
  case (1 s)
  show ?case
  proof (cases "rx_exec True WRAPPED_PATTERN_REMOVAL_PATTERN p s")
    case None
    then have "replace_all True WRAPPED_PATTERN_REMOVAL_PATTERN [] p s = s"
      by (subst replace_all.simps) simp
    with 1(2) show ?thesis by simp
  next
    case (Some r)
    obtain k p' s' c where r: "r = (k, p', s', c)" by (cases r) auto
    from Some r have ex: "rx_exec True WRAPPED_PATTERN_REMOVAL_PATTERN p s = Some (k, (p', s', c))"
      by simp
    then obtain pre w where s: "s = pre @ w @ s'" "k = length pre" and w: "is_annotation w"
      by (rule removal_exec_text)
    from w obtain zs where zs: "w = CHR ''@'' # zs" by (rule is_annotation_head)
    then have ne: "w \<noteq> []" by simp
    have unf: "replace_all True WRAPPED_PATTERN_REMOVAL_PATTERN [] p s =
        pre @ replace_all True WRAPPED_PATTERN_REMOVAL_PATTERN [] p' s'"
      using ex s ne by (rule removal_unfold)
    have "\<not> has_tag_span ((a @ pre) @ s')"
    proof
      assume "has_tag_span ((a @ pre) @ s')"
      then have "has_tag_span ((a @ pre) @ w @ s')" using zs by (rule has_tag_span_insert) simp
      with 1(2) s show False by simp
    qed
    moreover from s ne have "length s' < length s" by (cases w) auto
    ultimately have "\<not> has_tag_span ((a @ pre) @ replace_all True WRAPPED_PATTERN_REMOVAL_PATTERN [] p' s')"
      using 1(1) by blast
    then show ?thesis unfolding unf by simp
  qed
qed

lemma tag_free_unchanged:
  assumes "\<not> has_tag_span s"
  shows "replace_all False HTML_TAG_PATTERN rep p s = s"
proof -
  from assms tag_exec_iff[of p s] have "rx_exec False HTML_TAG_PATTERN p s = None" by blast
  then show ?thesis by (subst replace_all.simps) simp
qed

lemma cleanedLine_without_tags:
  assumes "\<not> has_tag_span line"
  shows "cleanedLine line = cleanedLine_index line"
proof -
  from assms have "\<not> has_tag_span ([] @ line)" by simp
  then have "\<not> has_tag_span ([] @ replace_all True WRAPPED_PATTERN_REMOVAL_PATTERN [] None line)"
    by (rule removal_keeps_tag_free)
  then show ?thesis unfolding cleanedLine_def cleanedLine_index_def
    by (simp add: tag_free_unchanged)
qed

lemma pass2_same_cleaning:
  assumes "\<forall>line\<in>set lines. clean line = clean' line"
  shows "pass2 clean known n lines occ = pass2 clean' known n lines occ"
  using assms
proof (induct lines arbitrary: n occ)
  case Nil
  show ?case by simp
next
  case (Cons line rest)
  then have "clean line = clean' line"
    and "\<And>n occ. pass2 clean known n rest occ = pass2 clean' known n rest occ" by simp_all
  then show ?case by (simp split: option.splits sum.splits)
qed

text \<open>
  C10: on a document none of whose lines contains a tag span, the scanner that strips tags
  and the scanner of \<open>src/index.js\<close>, which does not, end in the same way: both return the
  same occurrence record, or both leave with the same exit status, or neither returns.
\<close>

theorem versions_agree_without_tags:
  assumes "readLines e filepath = Inr lines" and "\<forall>line\<in>set lines. \<not> has_tag_span line"
  shows "map_option fst (findUnwrappedPhraseOccurrences e filepath st)
     = map_option fst (findUnwrappedPhraseOccurrences_index e filepath st)"
proof -
  from assms(2) have "\<forall>line\<in>set lines. cleanedLine line = cleanedLine_index line"
    by (simp add: cleanedLine_without_tags)
  then have "pass2 cleanedLine known 0 lines [] = pass2 cleanedLine_index known 0 lines []" for known
    by (rule pass2_same_cleaning)
  with assms(1) show ?thesis
    unfolding findUnwrappedPhraseOccurrences_def findUnwrappedPhraseOccurrences_index_def
      find_occurrences_def caught_def Let_def
    by (simp split: option.splits sum.splits)
qed

theorem versions_agree_without_tags_witness:
  "\<not> has_tag_span ''@[static#cat] if a < b'' \<and> \<not> has_tag_span ''the cat <> dog > cat''
   \<and> map_option fst (findUnwrappedPhraseOccurrences plain_env ''notes.txt'' fresh_proc)
       = Some (Return [(''cat'', [2])])
   \<and> map_option fst (findUnwrappedPhraseOccurrences_index plain_env ''notes.txt'' fresh_proc)
       = Some (Return [(''cat'', [2])])"
proof -
  have rd: "readLines plain_env ''notes.txt'' = Inr [''@[static#cat] if a < b'', ''the cat <> dog > cat'']"
    by (simp add: plain_env_def)
  have e1: "rx_exec False HTML_TAG_PATTERN None ''@[static#cat] if a < b'' = None" by code_simp
  have e2: "rx_exec False HTML_TAG_PATTERN None ''the cat <> dog > cat'' = None" by code_simp
  from e1 tag_exec_iff[of None "''@[static#cat] if a < b''"]
  have t1: "\<not> has_tag_span ''@[static#cat] if a < b''" by blast
  from e2 tag_exec_iff[of None "''the cat <> dog > cat''"]
  have t2: "\<not> has_tag_span ''the cat <> dog > cat''" by blast
  from t1 t2 have free: "\<forall>line\<in>set [''@[static#cat] if a < b'', ''the cat <> dog > cat'']. \<not> has_tag_span line"
    by simp
  have run: "map_option fst (findUnwrappedPhraseOccurrences plain_env ''notes.txt'' fresh_proc)
       = Some (Return [(''cat'', [2])])" by code_simp
  from versions_agree_without_tags[OF rd free, of fresh_proc] run t1 t2 show ?thesis by simp
qed

section \<open>A document without annotations\<close>

lemma show_nat_0: "show_nat 0 = ''0''"
  by code_simp

lemma pass1_no_annotation:
  assumes "\<forall>line\<in>set lines. \<not> has_annotation line"
  shows "pass1 lines known = Some known"
  using assms
proof (induct lines)
  case Nil
  show ?case by simp
next
  case (Cons line rest)
  then have "\<not> has_annotation line" by simp
  with extraction_exec_iff[of None line]
  have "rx_exec True WRAPPED_PHRASE_EXTRACTION_PATTERN None line = None" by blast
  then have "exec_while WRAPPED_PHRASE_EXTRACTION_PATTERN add_phrase None line known = Some known"
    by (subst exec_while.simps) simp
  with Cons show ?case by simp
qed

text \<open>
  C7: when no line of the document contains an annotation, pass 1 finds no phrase, the
  scanner returns the empty record after one reading of the file and without announcing
  pass 2, and the program ends with status 0 after the reporter has said that no unwrapped
  instance was found.
\<close>

theorem no_annotations_short_circuit:
  assumes "argv2 e = Some filepath" and "filepath \<noteq> []" and "existsSync e filepath"
    and "readLines e filepath = Inr lines"
    and "\<forall>line\<in>set lines. \<not> has_annotation line"
  shows "pass1 lines [] = Some []
    \<and> findUnwrappedPhraseOccurrences e filepath st =
        Some (Return [],
          st\<lparr>out := out st @
                 [units ''Pass 1: Collecting phrases from wrapped patterns...'',
                  units ''Found 0 unique phrases in wrapped patterns.'',
                  units ''No wrapped phrases found to monitor for unwrapped instances.''],
             opened := opened st + 1\<rparr>)
    \<and> main e =
        Some (0,
          \<lparr>out = [units (''Searching for unwrapped phrases in: '' @ [CHR 0x27] @ filepath @ [CHR 0x27, CHR 0x0A]),
                  units ''Pass 1: Collecting phrases from wrapped patterns...'',
                  units ''Found 0 unique phrases in wrapped patterns.'',
                  units ''No wrapped phrases found to monitor for unwrapped instances.'',
                  units ''No unwrapped instances of known phrases found.''],
           err = [], opened = 1\<rparr>)"
proof -
  from assms(5) have p1: "pass1 lines [] = Some []" by (rule pass1_no_annotation)
  have scan: "findUnwrappedPhraseOccurrences e filepath st =
        Some (Return [],
          st\<lparr>out := out st @
                 [units ''Pass 1: Collecting phrases from wrapped patterns...'',
                  units ''Found 0 unique phrases in wrapped patterns.'',
                  units ''No wrapped phrases found to monitor for unwrapped instances.''],
             opened := opened st + 1\<rparr>)" for st
    unfolding findUnwrappedPhraseOccurrences_def find_occurrences_def
    using assms(3,4) p1
    by (simp add: Let_def console_log_def createReadStream_def show_nat_0)
  have empty: "processResults (snd (store_record [])) (fst (store_record []), st) =
      ([MapObj []], console_log (units ''No unwrapped instances of known phrases found.'') st)" for st
    by (simp add: store_record_def processResults_def Map_size_def heap_get_def)
  have "main e =
        Some (0,
          \<lparr>out = [units (''Searching for unwrapped phrases in: '' @ [CHR 0x27] @ filepath @ [CHR 0x27, CHR 0x0A]),
                  units ''Pass 1: Collecting phrases from wrapped patterns...'',
                  units ''Found 0 unique phrases in wrapped patterns.'',
                  units ''No wrapped phrases found to monitor for unwrapped instances.'',
                  units ''No unwrapped instances of known phrases found.''],
           err = [], opened = 1\<rparr>)"
    unfolding main_def run_main_def
    using assms(1,2) empty
    by (simp add: Let_def scan console_log_def split_beta)
  with p1 scan show ?thesis by simp
qed

theorem no_annotations_short_circuit_witness:
  "\<not> has_annotation ''plain prose'' \<and> \<not> has_annotation ''no marker in [static#x] or @static#y]''
   \<and> pass1 [''plain prose'', ''no marker in [static#x] or @static#y]''] [] = Some []
   \<and> map_option fst (findUnwrappedPhraseOccurrences prose_env ''notes.txt'' fresh_proc) = Some (Return [])
   \<and> map_option fst (main prose_env) = Some 0
   \<and> map_option (last \<circ> out \<circ> snd) (main prose_env)
       = Some (units ''No unwrapped instances of known phrases found.'')
   \<and> map_option (opened \<circ> snd) (main prose_env) = Some 1"
proof -
  have a: "argv2 prose_env = Some ''notes.txt''" "''notes.txt'' \<noteq> []" "existsSync prose_env ''notes.txt''"
    "readLines prose_env ''notes.txt'' = Inr [''plain prose'', ''no marker in [static#x] or @static#y]'']"
    by (simp_all add: prose_env_def)
  have e1: "rx_exec True WRAPPED_PHRASE_EXTRACTION_PATTERN None ''plain prose'' = None" by code_simp
  have e2: "rx_exec True WRAPPED_PHRASE_EXTRACTION_PATTERN None ''no marker in [static#x] or @static#y]'' = None"
    by code_simp
  from e1 extraction_exec_iff[of None "''plain prose''"]
  have t1: "\<not> has_annotation ''plain prose''" by blast
  from e2 extraction_exec_iff[of None "''no marker in [static#x] or @static#y]''"]
  have t2: "\<not> has_annotation ''no marker in [static#x] or @static#y]''" by blast
  from t1 t2 have free: "\<forall>line\<in>set [''plain prose'', ''no marker in [static#x] or @static#y]'']. \<not> has_annotation line"
    by simp
  from no_annotations_short_circuit[OF a free, of fresh_proc] t1 t2 show ?thesis by simp
qed

section \<open>The report\<close>

text \<open>
  The order in which \<open>sort\<close> puts strings: by the code units from left to right, a proper
  prefix first.
\<close>

lemma ustring_less_code_units:
  "((x::nat) # xs < y # ys) = (x < y \<or> x = y \<and> xs < ys)"
  "([] < (y::nat) # ys) = True"
  "(xs < ([]::ustring)) = False"
  by simp_all

lemma map_fst_insort_key:
  "map fst (insort_key fst x xs) = insort (fst x) (map fst xs)"
  by (induct xs) simp_all

lemma map_fst_sort_key: "map fst (sort_key fst m) = sort (map fst m)"
  by (induct m) (simp_all add: map_fst_insort_key)

lemma heap_get_old: "a < length h \<Longrightarrow> heap_get (h @ [ob]) a = heap_get h a"
  by (simp add: heap_get_def nth_append)

lemma heap_get_new: "heap_get (h @ [ob]) (length h) = Some ob"
  by (simp add: heap_get_def)

lemma heap_get_SomeD: "heap_get h a = Some ob \<Longrightarrow> a < length h"
  by (simp add: heap_get_def split: if_splits)

lemma sorted_keys_array:
  assumes "heap_get h m = Some (MapObj entries)"
  shows "Array_from_keys m h = (length h, h @ [StrArray (map fst entries)])"
    and "Array_sort (length h) (h @ [StrArray ks]) = h @ [StrArray (sort ks)]"
    and "Array_elements (length h) (h @ [StrArray ks]) = ks"
  using assms
  by (simp_all add: Array_from_keys_def Array_sort_def Array_elements_def heap_new_def heap_set_def
      heap_get_new)

lemma fold_report_phrase:
  assumes m: "heap_get h m = Some (MapObj entries)" and d: "distinct (map fst entries)"
    and arrays: "\<forall>(phrase, a)\<in>set entries. \<exists>ns. heap_get h a = Some (NumArray ns) \<and> ns \<noteq> []"
    and sub: "set es \<subseteq> set entries"
  shows "fold (report_phrase m (h @ [ob])) (map fst es) st =
     st\<lparr>out := out st @ map (\<lambda>(phrase, a). report_line phrase (line_numbers_at h a)) es\<rparr>"
  using sub
proof (induct es arbitrary: st)
  case Nil
  show ?case by simp
next
  case (Cons entry es)
  obtain k a where entry: "entry = (k, a)" by (cases entry)
  with Cons.prems have mem: "(k, a) \<in> set entries" by simp
  with d have look: "map_of entries k = Some a" by simp
  from arrays mem obtain ns where ns: "heap_get h a = Some (NumArray ns)" "ns \<noteq> []" by blast
  from m have "m < length h" by (rule heap_get_SomeD)
  with m have "Map_get m k (h @ [ob]) = Some a" by (simp add: Map_get_def heap_get_old look)
  moreover from ns have "heap_get (h @ [ob]) a = Some (NumArray ns)"
    by (simp add: heap_get_old heap_get_SomeD)
  ultimately have "report_phrase m (h @ [ob]) k st = console_log (report_line k ns) st"
    using ns(2) by (simp add: report_phrase_def)
  moreover from ns have "line_numbers_at h a = ns" by (simp add: line_numbers_at_def)
  ultimately show ?case using Cons entry by (simp add: console_log_def)
qed

text \<open>
  The record that the scanner returns, put in the store, is a map of the kind the next
  theorem is about.
\<close>

lemma inj_units: "inj units"
  unfolding units_def by (rule inj_mapI) (rule injI, simp add: code_unit_inject)

lemma store_record_well_formed:
  assumes "map_option fst (findUnwrappedPhraseOccurrences e filepath st0) = Some (Return occ)"
    and "store_record occ = (h, m)"
  shows "\<exists>entries. heap_get h m = Some (MapObj entries) \<and> length entries = length occ
      \<and> distinct (map fst entries)
      \<and> (\<forall>(phrase, a)\<in>set entries. \<exists>ns. heap_get h a = Some (NumArray ns) \<and> ns \<noteq> [])"
proof -
  let ?entries = "zip (map (\<lambda>entry. units (fst entry)) occ) [0 ..< length occ]"
  from assms(2) have m: "m = length occ" by (auto simp: store_record_def)
  from assms(2) have h: "h = map (\<lambda>entry. NumArray (snd entry)) occ @ [MapObj ?entries]"
    by (auto simp: store_record_def)
  have "distinct (map fst occ) \<and> (\<forall>k lns. map_of occ k = Some lns \<longrightarrow> lns \<noteq> [])"
  proof (cases "occ = []")
    case True
    then show ?thesis by simp
  next
    case False
    with find_occurrences_ReturnD[OF assms(1)[unfolded findUnwrappedPhraseOccurrences_def]]
    obtain lines known where "pass2 cleanedLine known 0 lines [] = Some (Inr occ)"
      by (auto split: if_splits)
    then have "record_ok known (0 + length lines) occ" by (rule pass2_ok) (rule record_ok_empty)
    then show ?thesis by (auto simp: record_ok_def)
  qed
  then have d: "distinct (map fst occ)" and ne: "\<forall>k lns. map_of occ k = Some lns \<longrightarrow> lns \<noteq> []"
    by blast+
  have 1: "heap_get h m = Some (MapObj ?entries)" unfolding h m
    by (simp add: heap_get_def nth_append)
  have 2: "length ?entries = length occ" by simp
  have keys: "map fst ?entries = map units (map fst occ)" by (simp add: comp_def)
  have "inj_on units (set (map fst occ))" using inj_units by (rule inj_on_subset) simp
  with d have "distinct (map units (map fst occ))" by (simp only: distinct_map simp_thms)
  then have 3: "distinct (map fst ?entries)" by (simp only: keys)
  have 4: "\<forall>(phrase, a)\<in>set ?entries. \<exists>ns. heap_get h a = Some (NumArray ns) \<and> ns \<noteq> []"
  proof (intro ballI, clarify)
    fix phrase a assume "(phrase, a) \<in> set ?entries"
    then have a: "a < length occ" by (auto dest: set_zip_rightD)
    then have e: "(fst (occ ! a), snd (occ ! a)) \<in> set occ" by simp
    with d have "map_of occ (fst (occ ! a)) = Some (snd (occ ! a))" by (rule map_of_is_SomeI)
    with ne have "snd (occ ! a) \<noteq> []" by blast
    moreover from a have "heap_get h a = Some (NumArray (snd (occ ! a)))"
      unfolding h by (simp add: heap_get_def nth_append)
    ultimately show "\<exists>ns. heap_get h a = Some (NumArray ns) \<and> ns \<noteq> []" by blast
  qed
  from 1 2 3 4 show ?thesis by blast
qed

text \<open>
  C8, as the code has it: for a non-empty map whose arrays of line numbers are non-empty,
  as the maps of the scanner are, the reporter prints a heading, one line for each phrase
  with the line numbers that the store has for it, and a closing rule. The phrases come in
  the order of \<open>sort\<close>, which is the order of their UTF-16 code units, each once. The
  reporter adds the sorted array of keys to the store and leaves every object that was
  there, the map and its arrays among them, as it was.
\<close>

theorem report_sorted:
  assumes "heap_get h m = Some (MapObj entries)" and "entries \<noteq> []"
    and "distinct (map fst entries)"
    and "\<forall>(phrase, a)\<in>set entries. \<exists>ns. heap_get h a = Some (NumArray ns) \<and> ns \<noteq> []"
  shows "processResults m (h, st) =
      (h @ [StrArray (sort (map fst entries))],
       st\<lparr>out := out st @ [units ([CHR 0x0A] @ ''--- Unwrapped Phrase Occurrences Found ---'')]
                @ map (\<lambda>(phrase, a). report_line phrase (line_numbers_at h a)) (sort_key fst entries)
                @ [units ''----------------------------------------'']\<rparr>)
    \<and> sorted (map fst (sort_key fst entries)) \<and> distinct (map fst (sort_key fst entries))
    \<and> set (sort_key fst entries) = set entries
    \<and> take (length h) (fst (processResults m (h, st))) = h"
proof -
  let ?h2 = "h @ [StrArray (sort (map fst entries))]"
  have size: "Map_size m h = length entries" using assms(1) by (simp add: Map_size_def)
  have "fold (report_phrase m ?h2) (map fst (sort_key fst entries)) st' =
     st'\<lparr>out := out st' @ map (\<lambda>(phrase, a). report_line phrase (line_numbers_at h a)) (sort_key fst entries)\<rparr>"
    for st'
    using assms(1,3,4) by (rule fold_report_phrase) simp
  then have fold: "fold (report_phrase m ?h2) (sort (map fst entries)) st' =
     st'\<lparr>out := out st' @ map (\<lambda>(phrase, a). report_line phrase (line_numbers_at h a)) (sort_key fst entries)\<rparr>"
    for st'
    by (simp only: map_fst_sort_key)
  have run: "processResults m (h, st) =
      (?h2,
       st\<lparr>out := out st @ [units ([CHR 0x0A] @ ''--- Unwrapped Phrase Occurrences Found ---'')]
                @ map (\<lambda>(phrase, a). report_line phrase (line_numbers_at h a)) (sort_key fst entries)
                @ [units ''----------------------------------------'']\<rparr>)"
    using assms(2)
    by (simp add: processResults_def size sorted_keys_array[OF assms(1)] fold console_log_def)
  moreover have "sorted (map fst (sort_key fst entries))" by (rule sorted_sort_key)
  moreover have "distinct (map fst (sort_key fst entries))"
    using assms(3) by (simp add: map_fst_sort_key)
  moreover have "set (sort_key fst entries) = set entries" by simp
  moreover have "take (length h) (fst (processResults m (h, st))) = h" unfolding run by simp
  ultimately show ?thesis by blast
qed

theorem report_sorted_witness:
  "map_option fst (findUnwrappedPhraseOccurrences greek_env ''notes.txt'' fresh_proc)
     = Some (Return [(''Alpha'', [2]), (''alpha'', [2]), (''zeta'', [3, 4, 10]), (''_b'', [3])])
   \<and> store_record [(''Alpha'', [2]), (''alpha'', [2]), (''zeta'', [3, 4, 10]), (''_b'', [3])]
      = (greek_heap, 4)
   \<and> out (snd (processResults 4 (greek_heap, fresh_proc)))
      = [units ([CHR 0x0A] @ ''--- Unwrapped Phrase Occurrences Found ---''),
         report_line (units ''Alpha'') [2],
         report_line (units ''_b'') [3],
         report_line (units ''alpha'') [2],
         report_line (units ''zeta'') [3, 4, 10],
         units ''----------------------------------------'']
   \<and> report_line (units ''zeta'') [3, 4, 10]
      = units (''Phrase '' @ [CHR 0x22] @ ''zeta'' @ [CHR 0x22] @ '' found unwrapped at lines: 3, 4, 10'')
   \<and> take 5 (fst (processResults 4 (greek_heap, fresh_proc))) = greek_heap"
proof -
  let ?entries = "[(units ''Alpha'', 0), (units ''alpha'', 1), (units ''zeta'', 2), (units ''_b'', 3::nat)]"
  have run: "map_option fst (findUnwrappedPhraseOccurrences greek_env ''notes.txt'' fresh_proc)
     = Some (Return [(''Alpha'', [2]), (''alpha'', [2]), (''zeta'', [3, 4, 10]), (''_b'', [3])])"
    by code_simp
  have store: "store_record [(''Alpha'', [2]), (''alpha'', [2]), (''zeta'', [3, 4, 10]), (''_b'', [3])]
      = (greek_heap, 4)" by code_simp
  have m: "heap_get greek_heap 4 = Some (MapObj ?entries)" by (simp add: greek_heap_def heap_get_def)
  have ne: "?entries \<noteq> []" by simp
  have d: "distinct (map fst ?entries)" by code_simp
  have arrays: "\<forall>(phrase, a)\<in>set ?entries. \<exists>ns. heap_get greek_heap a = Some (NumArray ns) \<and> ns \<noteq> []"
    by (simp add: greek_heap_def heap_get_def)
  have srt: "sort_key fst ?entries
      = [(units ''Alpha'', 0), (units ''_b'', 3), (units ''alpha'', 1), (units ''zeta'', 2)]"
    by code_simp
  have nums: "line_numbers_at greek_heap 0 = [2]" "line_numbers_at greek_heap (Suc 0) = [2]"
    "line_numbers_at greek_heap 2 = [3, 4, 10]" "line_numbers_at greek_heap 3 = [3]"
    by (simp_all add: line_numbers_at_def greek_heap_def heap_get_def)
  have shown: "report_line (units ''zeta'') [3, 4, 10]
      = units (''Phrase '' @ [CHR 0x22] @ ''zeta'' @ [CHR 0x22] @ '' found unwrapped at lines: 3, 4, 10'')"
    by code_simp
  have len: "length greek_heap = 5" by (simp add: greek_heap_def)
  note th = report_sorted[OF m ne d arrays, of fresh_proc, unfolded srt len]
  from th have outs: "out (snd (processResults 4 (greek_heap, fresh_proc)))
      = [units ([CHR 0x0A] @ ''--- Unwrapped Phrase Occurrences Found ---''),
         report_line (units ''Alpha'') [2],
         report_line (units ''_b'') [3],
         report_line (units ''alpha'') [2],
         report_line (units ''zeta'') [3, 4, 10],
         units ''----------------------------------------'']"
    by (simp add: nums fresh_proc_def)
  from th have same: "take 5 (fst (processResults 4 (greek_heap, fresh_proc))) = greek_heap"
    by blast
  from run store outs shown same show ?thesis by blast
qed

text \<open>
  The claim as stated fails where the order of the code units is not the order of the code
  points. The emoji U+1F600 is the surrogate pair D83D DE00, and D83D comes before FF5E, so
  the reporter prints the phrase with the emoji before the phrase with the fullwidth tilde
  U+FF5E, whose code point is the smaller one.
\<close>

theorem code_point_order_counterexample:
  "out (snd (processResults 2 (astral_heap, fresh_proc)))
      = [units ([CHR 0x0A] @ ''--- Unwrapped Phrase Occurrences Found ---''),
         report_line [0x61, 0xD83D, 0xDE00, 0x62] [2],
         report_line [0x61, 0xFF5E, 0x62] [2],
         units ''----------------------------------------'']
   \<and> code_points [0x61, 0xD83D, 0xDE00, 0x62] = [0x61, 0x1F600, 0x62]
   \<and> code_points [0x61, 0xFF5E, 0x62] = [0x61, 0xFF5E, 0x62]
   \<and> code_points [0x61, 0xFF5E, 0x62] < code_points [0x61, 0xD83D, 0xDE00, 0x62]
   \<and> \<not> sorted (map code_points [[0x61, 0xD83D, 0xDE00, 0x62], [0x61, 0xFF5E, 0x62]])"
proof -
  have "out (snd (processResults 2 (astral_heap, fresh_proc)))
      = [units ([CHR 0x0A] @ ''--- Unwrapped Phrase Occurrences Found ---''),
         report_line [0x61, 0xD83D, 0xDE00, 0x62] [2],
         report_line [0x61, 0xFF5E, 0x62] [2],
         units ''----------------------------------------'']"
    by (simp add: processResults_def astral_heap_def Map_size_def heap_get_def Array_from_keys_def
        heap_new_def Array_sort_def heap_set_def Array_elements_def report_phrase_def Map_get_def
        console_log_def fresh_proc_def)
  moreover have "code_points [0x61, 0xD83D, 0xDE00, 0x62] = [0x61, 0x1F600, 0x62]" by simp
  moreover have "code_points [0x61, 0xFF5E, 0x62] = [0x61, 0xFF5E, 0x62]" by simp
  ultimately show ?thesis by simp
qed

section \<open>The empty phrase\<close>

lemma find_occurrences_diverges:
  assumes "existsSync e filePath" and "readLines e filePath = Inr lines"
    and "pass1 lines [] = Some known" and "known \<noteq> []"
    and "pass2 clean known 0 lines [] = None"
  shows "find_occurrences clean banner e filePath st = None"
  using assms by (simp add: find_occurrences_def Let_def)

text \<open>
  C2: the scanner has no guard for the empty phrase. Its pattern is \<open>\b\b\<close>, which matches
  the empty text at a word boundary; \<open>exec\<close> then leaves \<open>lastIndex\<close> where it was, and the
  inner loop of pass 2 finds the same match for ever. On this document pass 1 collects the
  empty phrase, and neither pass 2 nor the program returns.
\<close>

theorem empty_phrase_never_returns:
  "pass1 [''@[static#] marks nothing'', ''plain''] [] = Some [[]]
   \<and> cleanedLine ''@[static#] marks nothing'' = '' marks nothing''
   \<and> pass2 cleanedLine [[]] 0 [''@[static#] marks nothing'', ''plain''] [] = None
   \<and> main empty_phrase_env = None"
proof -
  have p1: "pass1 [''@[static#] marks nothing'', ''plain''] [] = Some [[]]" by code_simp
  have cl: "cleanedLine ''@[static#] marks nothing'' = '' marks nothing''" by code_simp
  have first: "rx_exec True (bare_rx []) None '' marks nothing''
      = Some (1, (Some CHR '' '', ''marks nothing'', None))" by code_simp
  have again: "rx_exec True (bare_rx []) (Some CHR '' '') ''marks nothing''
      = Some (0, (Some CHR '' '', ''marks nothing'', None))" by code_simp
  have "exec_while (bare_rx []) body (Some CHR '' '') ''marks nothing'' acc = None"
    for body :: "mstate \<Rightarrow> occurrences \<Rightarrow> occurrences" and acc
    using again by (rule exec_while_stuck)
  then have "exec_while (bare_rx []) (\<lambda>match. note_match [] 1) None '' marks nothing'' [] = None"
    using first by (subst exec_while.simps) simp
  then have "scan_phrase '' marks nothing'' 1 [] [] = None"
    by (simp add: scan_phrase_def parse_bare)
  then have p2: "pass2 cleanedLine [[]] 0 [''@[static#] marks nothing'', ''plain''] [] = None"
    by (simp add: cl)
  have env: "argv2 empty_phrase_env = Some ''notes.txt''" "existsSync empty_phrase_env ''notes.txt''"
    "readLines empty_phrase_env ''notes.txt'' = Inr [''@[static#] marks nothing'', ''plain'']"
    by (simp_all add: empty_phrase_env_def)
  have "findUnwrappedPhraseOccurrences empty_phrase_env ''notes.txt'' st = None" for st
    unfolding findUnwrappedPhraseOccurrences_def
    using env(2,3) p1 _ p2 by (rule find_occurrences_diverges) simp
  then have "main empty_phrase_env = None"
    unfolding main_def run_main_def by (simp add: env(1) Let_def)
  with p1 cl p2 show ?thesis by simp
qed

section \<open>How a run ends\<close>

lemma extraction_consuming:
  assumes "rx_exec True WRAPPED_PHRASE_EXTRACTION_PATTERN p s = Some (k, (p', s', c))"
  shows "length s' < length s"
proof -
  from rx_exec_SomeD[OF assms] obtain pre rest tl where s: "s = pre @ rest"
    and r: "rmatch True WRAPPED_PHRASE_EXTRACTION_PATTERN (cursor_at p pre, rest, None) = (p', s', c) # tl"
    by blast
  from r have "(p', s', c) \<in> set (rmatch True WRAPPED_PHRASE_EXTRACTION_PATTERN (cursor_at p pre, rest, None))"
    by simp
  then obtain w where "rest = ''@['' @ w @ s'" unfolding extraction_match_iff by auto
  with s show ?thesis by simp
qed

lemma pass1_total: "\<exists>known'. pass1 lines known = Some known'"
proof (induct lines arbitrary: known)
  case Nil
  show ?case by simp
next
  case (Cons line rest)
  have "\<exists>r. exec_while WRAPPED_PHRASE_EXTRACTION_PATTERN add_phrase None line known = Some r"
    by (rule exec_while_total) (rule extraction_consuming)
  with Cons show ?case by auto
qed

lemma scan_phrase_returns:
  assumes "scan_phrase cleaned n phrase occ = Some r"
  shows "\<exists>occ'. r = Inr occ'"
  using assms by (auto simp: scan_phrase_def parse_bare)

lemma scan_phrases_returns:
  "scan_phrases cleaned n phrases occ = Some r \<Longrightarrow> \<exists>occ'. r = Inr occ'"
proof (induct phrases arbitrary: occ)
  case Nil
  then show ?case by auto
next
  case (Cons phrase phrases)
  show ?case
  proof (cases "scan_phrase cleaned n phrase occ")
    case None
    with Cons.prems show ?thesis by simp
  next
    case (Some r1)
    from scan_phrase_returns[OF Some] obtain occ1 where "r1 = Inr occ1" by blast
    with Some Cons show ?thesis by simp
  qed
qed

lemma pass2_returns:
  "pass2 clean known n lines occ = Some r \<Longrightarrow> \<exists>occ'. r = Inr occ'"
proof (induct lines arbitrary: n occ)
  case Nil
  then show ?case by auto
next
  case (Cons line rest)
  show ?case
  proof (cases "scan_phrases (clean line) (n + 1) known occ")
    case None
    with Cons.prems show ?thesis by simp
  next
    case (Some r1)
    from scan_phrases_returns[OF Some] obtain occ1 where "r1 = Inr occ1" by blast
    with Some Cons show ?thesis by simp
  qed
qed

lemma scan_phrase_total:
  assumes "phrase \<noteq> []"
  shows "\<exists>occ'. scan_phrase cleaned n phrase occ = Some (Inr occ')"
proof -
  have "\<exists>r. exec_while (bare_rx phrase) (\<lambda>match. note_match phrase n) None cleaned occ = Some r"
    by (rule exec_while_total) (rule bare_consuming[OF assms])
  then show ?thesis by (auto simp: scan_phrase_def parse_bare)
qed

lemma scan_phrases_total:
  assumes "[] \<notin> set phrases"
  shows "\<exists>occ'. scan_phrases cleaned n phrases occ = Some (Inr occ')"
  using assms
proof (induct phrases arbitrary: occ)
  case Nil
  show ?case by simp
next
  case (Cons phrase phrases)
  then have "phrase \<noteq> []" by auto
  from scan_phrase_total[OF this] obtain occ1 where
    "scan_phrase cleaned n phrase occ = Some (Inr occ1)" by blast
  with Cons show ?case by auto
qed

lemma pass2_total:
  assumes "[] \<notin> set known"
  shows "\<exists>occ'. pass2 clean known n lines occ = Some (Inr occ')"
proof (induct lines arbitrary: n occ)
  case Nil
  show ?case by simp
next
  case (Cons line rest)
  from scan_phrases_total[OF assms] obtain occ1 where
    "scan_phrases (clean line) (n + 1) known occ = Some (Inr occ1)" by blast
  with Cons show ?case by auto
qed

lemma processResults_report:
  "report_printed (snd (processResults m (h, st))) \<and> err (snd (processResults m (h, st))) = err st"
proof -
  have "err (fold (report_phrase m h') ks st') = err st'" for h' ks st'
    by (induct ks arbitrary: st')
      (auto simp: report_phrase_def console_log_def split: option.splits obj.splits)
  then show ?thesis
    by (auto simp: processResults_def report_printed_def console_log_def Let_def split_beta)
qed

lemma find_occurrences_readable:
  assumes "existsSync e filePath" and "readLines e filePath = Inr lines"
    and "find_occurrences clean banner e filePath st = Some (r, st')"
  shows "\<exists>occ. r = Return occ \<and> err st' = err st"
proof (cases "pass1 lines []")
  case None
  with assms show ?thesis by (simp add: find_occurrences_def Let_def)
next
  case (Some known)
  show ?thesis
  proof (cases "known = []")
    case True
    with Some assms show ?thesis
      by (auto simp: find_occurrences_def Let_def console_log_def createReadStream_def)
  next
    case False
    show ?thesis
    proof (cases "pass2 clean known 0 lines []")
      case None
      with Some False assms show ?thesis by (simp add: find_occurrences_def Let_def)
    next
      case (Some r2)
      from pass2_returns[OF Some] obtain occ where "r2 = Inr occ" by blast
      with Some \<open>pass1 lines [] = Some known\<close> False assms show ?thesis
        by (auto simp: find_occurrences_def Let_def console_log_def createReadStream_def)
    qed
  qed
qed

lemma find_occurrences_total:
  assumes "existsSync e filePath" and "readLines e filePath = Inr lines"
    and "pass1 lines [] = Some known" and "[] \<notin> set known"
  shows "find_occurrences clean banner e filePath st \<noteq> None"
proof -
  from pass2_total[OF assms(4)] obtain occ where "pass2 clean known 0 lines [] = Some (Inr occ)"
    by blast
  with assms(1,2,3) show ?thesis by (simp add: find_occurrences_def Let_def)
qed

text \<open>
  C4, as the code has it. Without an argument, or with an empty one, the program prints the
  usage text on standard output, writes nothing to the error stream and ends with status 1
  before any pass. When the path names no file, or reading the file fails, it writes one
  message to the error stream and ends with status 1; in the first case no pass has run.
  In every other case a run that ends has status 0, has written nothing to the error
  stream and has printed the report last; and the run does end when pass 1 has collected
  no empty phrase.
\<close>

theorem exit_behaviour:
  "(argv2 e = None \<or> argv2 e = Some [] \<longrightarrow>
      main e = Some (1,
        \<lparr>out = [units ''Usage: node index.js <path_to_your_text_file>'',
                units ([CHR 0x0A] @ ''Please provide a file path as a command-line argument.'')],
         err = [], opened = 0\<rparr>))
   \<and> (argv2 e = Some filePath \<and> filePath \<noteq> [] \<and> \<not> existsSync e filePath \<longrightarrow>
      main e = Some (1,
        \<lparr>out = [searching_line filePath],
         err = [units (''Error: The file at '' @ [CHR 0x27] @ filePath @ [CHR 0x27] @ '' does not exist.'')],
         opened = 0\<rparr>))
   \<and> (argv2 e = Some filePath \<and> filePath \<noteq> [] \<and> existsSync e filePath
        \<and> readLines e filePath = Inl message \<longrightarrow>
      main e = Some (1,
        \<lparr>out = [searching_line filePath, units ''Pass 1: Collecting phrases from wrapped patterns...''],
         err = [units (''An unexpected error occurred while processing '' @ [CHR 0x27] @ filePath @ [CHR 0x27]
                  @ '': '' @ message)],
         opened = 1\<rparr>))
   \<and> (argv2 e = Some filePath \<and> filePath \<noteq> [] \<and> existsSync e filePath
        \<and> readLines e filePath = Inr lines \<longrightarrow>
      (\<forall>status st. main e = Some (status, st) \<longrightarrow> status = 0 \<and> err st = [] \<and> report_printed st)
      \<and> (\<forall>known. pass1 lines [] = Some known \<and> [] \<notin> set known \<longrightarrow> main e \<noteq> None))"
proof (intro conjI impI)
  assume "argv2 e = None \<or> argv2 e = Some []"
  then show "main e = Some (1,
        \<lparr>out = [units ''Usage: node index.js <path_to_your_text_file>'',
                units ([CHR 0x0A] @ ''Please provide a file path as a command-line argument.'')],
         err = [], opened = 0\<rparr>)"
    by (auto simp: main_def run_main_def usage_exit_def console_log_def)
next
  assume "argv2 e = Some filePath \<and> filePath \<noteq> [] \<and> \<not> existsSync e filePath"
  then show "main e = Some (1,
        \<lparr>out = [searching_line filePath],
         err = [units (''Error: The file at '' @ [CHR 0x27] @ filePath @ [CHR 0x27] @ '' does not exist.'')],
         opened = 0\<rparr>)"
    by (simp add: main_def run_main_def findUnwrappedPhraseOccurrences_def find_occurrences_def
        console_log_def console_error_def searching_line_def)
next
  assume "argv2 e = Some filePath \<and> filePath \<noteq> [] \<and> existsSync e filePath
        \<and> readLines e filePath = Inl message"
  then show "main e = Some (1,
        \<lparr>out = [searching_line filePath, units ''Pass 1: Collecting phrases from wrapped patterns...''],
         err = [units (''An unexpected error occurred while processing '' @ [CHR 0x27] @ filePath @ [CHR 0x27]
                  @ '': '' @ message)],
         opened = 1\<rparr>)"
    by (simp add: main_def run_main_def findUnwrappedPhraseOccurrences_def find_occurrences_def
        caught_def console_log_def console_error_def createReadStream_def searching_line_def Let_def)
next
  assume a: "argv2 e = Some filePath \<and> filePath \<noteq> [] \<and> existsSync e filePath
        \<and> readLines e filePath = Inr lines"
  let ?st1 = "console_log (searching_line filePath) \<lparr>out = [], err = [], opened = 0\<rparr>"
  have unf: "main e = (case findUnwrappedPhraseOccurrences e filePath ?st1 of
        None \<Rightarrow> None
      | Some (Exit status, st2) \<Rightarrow> Some (status, st2)
      | Some (Return found, st2) \<Rightarrow>
          (case store_record found of (h, m) \<Rightarrow> Some (0, snd (processResults m (h, st2)))))"
    using a by (simp add: main_def run_main_def searching_line_def Let_def)
  show "\<forall>status st. main e = Some (status, st) \<longrightarrow> status = 0 \<and> err st = [] \<and> report_printed st"
  proof (intro allI impI)
    fix status st
    assume m: "main e = Some (status, st)"
    then obtain r st2 where f: "findUnwrappedPhraseOccurrences e filePath ?st1 = Some (r, st2)"
      unfolding unf by (auto split: option.splits)
    from a have x: "existsSync e filePath" "readLines e filePath = Inr lines" by simp_all
    from find_occurrences_readable[OF x f[unfolded findUnwrappedPhraseOccurrences_def]]
    obtain occ where r: "r = Return occ" and e2: "err st2 = err ?st1" by blast
    obtain h rec where sr: "store_record occ = (h, rec)" by (cases "store_record occ")
    from m f r sr have "status = 0" "st = snd (processResults rec (h, st2))"
      unfolding unf by simp_all
    with e2 processResults_report[of rec h st2]
    show "status = 0 \<and> err st = [] \<and> report_printed st"
      by (simp add: console_log_def)
  qed
  show "\<forall>known. pass1 lines [] = Some known \<and> [] \<notin> set known \<longrightarrow> main e \<noteq> None"
  proof (intro allI impI)
    fix known
    assume k: "pass1 lines [] = Some known \<and> [] \<notin> set known"
    from a have x: "existsSync e filePath" "readLines e filePath = Inr lines" by simp_all
    from k have y: "pass1 lines [] = Some known" "[] \<notin> set known" by simp_all
    have "findUnwrappedPhraseOccurrences e filePath ?st1 \<noteq> None"
      unfolding findUnwrappedPhraseOccurrences_def using x y by (rule find_occurrences_total)
    then show "main e \<noteq> None" unfolding unf
      by (auto split: option.splits ending.splits prod.splits)
  qed
qed

theorem exit_behaviour_witness:
  "map_option fst (main no_arg_env) = Some 1
   \<and> map_option (err \<circ> snd) (main no_arg_env) = Some []
   \<and> map_option fst (main missing_env) = Some 1
   \<and> map_option (opened \<circ> snd) (main missing_env) = Some 0
   \<and> map_option (err \<circ> snd) (main missing_env)
       = Some [units (''Error: The file at '' @ [CHR 0x27] @ ''gone.txt'' @ [CHR 0x27] @ '' does not exist.'')]
   \<and> map_option fst (main unreadable_env) = Some 1
   \<and> map_option fst (main cat_env) = Some 0
   \<and> map_option fst (main prose_env) = Some 0"
proof -
  have 1: "argv2 no_arg_env = None \<or> argv2 no_arg_env = Some []" by (simp add: no_arg_env_def)
  have 2: "argv2 missing_env = Some ''gone.txt'' \<and> ''gone.txt'' \<noteq> [] \<and> \<not> existsSync missing_env ''gone.txt''"
    by (simp add: missing_env_def)
  have 3: "argv2 unreadable_env = Some ''notes.txt'' \<and> ''notes.txt'' \<noteq> []
      \<and> existsSync unreadable_env ''notes.txt''
      \<and> readLines unreadable_env ''notes.txt'' = Inl ''EACCES: permission denied''"
    by (simp add: unreadable_env_def)
  have 4: "argv2 cat_env = Some ''notes.txt'' \<and> ''notes.txt'' \<noteq> [] \<and> existsSync cat_env ''notes.txt''
      \<and> readLines cat_env ''notes.txt'' = Inr [''@[static#cat] cat'', ''category'', ''cat and Cat'']"
    by (simp add: cat_env_def)
  have 5: "argv2 prose_env = Some ''notes.txt'' \<and> ''notes.txt'' \<noteq> [] \<and> existsSync prose_env ''notes.txt''
      \<and> readLines prose_env ''notes.txt'' = Inr [''plain prose'', ''no marker in [static#x] or @static#y]'']"
    by (simp add: prose_env_def)
  have k4: "pass1 [''@[static#cat] cat'', ''category'', ''cat and Cat''] [] = Some [''cat'']
      \<and> [] \<notin> set [''cat'']" by code_simp
  have k5: "pass1 [''plain prose'', ''no marker in [static#x] or @static#y]''] [] = Some []
      \<and> [] \<notin> set ([] :: string list)" by code_simp
  note t1 = exit_behaviour[of no_arg_env, THEN conjunct1, rule_format, OF 1]
  note t2 = exit_behaviour[of missing_env "''gone.txt''", THEN conjunct2, THEN conjunct1, rule_format, OF 2]
  note t3 = exit_behaviour[of unreadable_env "''notes.txt''" "''EACCES: permission denied''",
      THEN conjunct2, THEN conjunct2, THEN conjunct1, rule_format, OF 3]
  note t4 = exit_behaviour[of cat_env "''notes.txt''" _ "[''@[static#cat] cat'', ''category'', ''cat and Cat'']",
      THEN conjunct2, THEN conjunct2, THEN conjunct2, rule_format, OF 4]
  note t5 = exit_behaviour[of prose_env "''notes.txt''" _ "[''plain prose'', ''no marker in [static#x] or @static#y]'']",
      THEN conjunct2, THEN conjunct2, THEN conjunct2, rule_format, OF 5]
  from t4 k4 have "main cat_env \<noteq> None" by blast
  then obtain s4 st4 where m4: "main cat_env = Some (s4, st4)" by auto
  with t4 have r4: "s4 = 0" by blast
  from t5 k5 have "main prose_env \<noteq> None" by blast
  then obtain s5 st5 where m5: "main prose_env = Some (s5, st5)" by auto
  with t5 have r5: "s5 = 0" by blast
  from t1 t2 t3 m4 r4 m5 r5 show ?thesis by simp
qed

text \<open>
  The claim as stated fails in its first case: without an argument the explanatory message
  goes to standard output, and the error stream stays empty.
\<close>

theorem usage_counterexample:
  "main no_arg_env = Some (1,
     \<lparr>out = [units ''Usage: node index.js <path_to_your_text_file>'',
             units ([CHR 0x0A] @ ''Please provide a file path as a command-line argument.'')],
      err = [], opened = 0\<rparr>)"
  by (simp add: main_def run_main_def usage_exit_def console_log_def no_arg_env_def)

end
